theory Spec2Isabelle
  imports
    Main
    "HOL-Library.AList"
    "HOL-Library.Sublist"
    "HOL-Library.While_Combinator"
    "HOL-Library.Char_ord"
    "HOL-Library.List_Lexorder"
begin

section \<open>Data model of \<^verbatim>\<open>provenance_context/__init__.py\<close>\<close>

text \<open>
  The crate's \<^verbatim>\<open>@graph\<close> is a list of JSON objects. Attribute values that the
  code only passes through, compares or tests for truth are kept as JSON values.
  Numbers are integers here (the code never computes with them).
\<close>

datatype json =
  JNull
  | JBool bool
  | JNum int
  | JStr string
  | JArr "json list"
  | JObj "(string \<times> json) list"

text \<open>Python truthiness of a JSON value (\<^verbatim>\<open>if v:\<close>, \<^verbatim>\<open>a or b\<close>).\<close>

fun truthy :: "json \<Rightarrow> bool" where
  "truthy JNull = False"
| "truthy (JBool b) = b"
| "truthy (JNum n) = (n \<noteq> 0)"
| "truthy (JStr s) = (s \<noteq> [])"
| "truthy (JArr xs) = (xs \<noteq> [])"
| "truthy (JObj kvs) = (kvs \<noteq> [])"

definition py_or :: "json \<Rightarrow> json \<Rightarrow> json" where
  "py_or a b = (if truthy a then a else b)"

text \<open>
  A reference inside \<^verbatim>\<open>object\<close>, \<^verbatim>\<open>result\<close> or \<^verbatim>\<open>instrument\<close>: the id itself
  (\<^verbatim>\<open>"x"\<close>) or a nested object (\<^verbatim>\<open>{"@id": "x"}\<close>, whose \<^verbatim>\<open>@id\<close> may be missing).
  The source reads it with
  \<^verbatim>\<open>oid = obj.get("@id") if isinstance(obj, dict) else obj\<close>.
\<close>

datatype ref = Inline string | Nested "string option"

fun ref_oid :: "ref \<Rightarrow> string option" where
  "ref_oid (Inline s) = Some s"
| "ref_oid (Nested i) = i"

text \<open>
  An entity of the graph. \<^verbatim>\<open>@id\<close> is read with \<^verbatim>\<open>e["@id"]\<close> and used as a dictionary
  key, so it is a mandatory string; \<^verbatim>\<open>instrument\<close>, \<^verbatim>\<open>object\<close> and \<^verbatim>\<open>result\<close> hold
  references (a missing \<^verbatim>\<open>object\<close> or \<^verbatim>\<open>result\<close> is the empty list, as
  \<^verbatim>\<open>act.get(key, [])\<close> reads it); every other member, \<^verbatim>\<open>@type\<close> included, is in
  \<open>attrs\<close>.
\<close>

record entity =
  eid :: string
  attrs :: "(string \<times> json) list"
  instrument :: "ref option"
  object :: "ref list"
  result :: "ref list"

text \<open>\<^verbatim>\<open>ent.get(k)\<close> and \<^verbatim>\<open>ent.get(k, d)\<close>.\<close>

definition py_get :: "entity \<Rightarrow> string \<Rightarrow> json" where
  "py_get ent k = (case map_of (attrs ent) k of None \<Rightarrow> JNull | Some v \<Rightarrow> v)"

definition py_get_default :: "entity \<Rightarrow> string \<Rightarrow> json \<Rightarrow> json" where
  "py_get_default ent k d = (case map_of (attrs ent) k of None \<Rightarrow> d | Some v \<Rightarrow> v)"

text \<open>\<^verbatim>\<open>_has_type\<close>: \<^verbatim>\<open>@type\<close> is a string or a list.\<close>

definition has_type :: "entity \<Rightarrow> string \<Rightarrow> bool" where
  "has_type ent tname =
     (case py_get ent ''@type'' of
        JArr ts \<Rightarrow> JStr tname \<in> set ts
      | t \<Rightarrow> t = JStr tname)"

type_synonym index = "(string \<times> string list) list"

record crate =
  graph :: "entity list"
  by_id :: "(string \<times> entity) list"
  actions :: "entity list"
  actions_by_result :: index
  actions_by_input :: index

text \<open>\<^verbatim>\<open>d.get(k, [])\<close> on a dictionary of lists.\<close>

definition dict_get_list :: "(string \<times> 'a list) list \<Rightarrow> string \<Rightarrow> 'a list" where
  "dict_get_list d k = (case map_of d k of None \<Rightarrow> [] | Some v \<Rightarrow> v)"

text \<open>
  \<^verbatim>\<open>_build_indexes\<close>. A Python dictionary keeps insertion order and overwrites in
  place, which is \<^const>\<open>AList.update\<close>. The body of the innermost loop is
  \<^verbatim>\<open>if oid: index[oid].append(act_id)\<close> on a \<^verbatim>\<open>defaultdict(list)\<close>.
\<close>

definition index_add :: "string \<Rightarrow> index \<Rightarrow> ref \<Rightarrow> index" where
  "index_add act_id idx obj =
     (case ref_oid obj of
        None \<Rightarrow> idx
      | Some oid \<Rightarrow>
          if oid \<noteq> [] then AList.update oid (dict_get_list idx oid @ [act_id]) idx
          else idx)"

definition index_action :: "index \<times> index \<Rightarrow> entity \<Rightarrow> index \<times> index" where
  "index_action ix act =
     (foldl (index_add (eid act)) (fst ix) (result act),
      foldl (index_add (eid act)) (snd ix) (object act))"

definition build_indexes :: "entity list \<Rightarrow> crate" where
  "build_indexes g =
     (let acts = filter (\<lambda>e. has_type e ''CreateAction'') g;
          ix = foldl index_action ([], []) acts
      in \<lparr> graph = g,
           by_id = foldl (\<lambda>m e. AList.update (eid e) e m) [] g,
           actions = acts,
           actions_by_result = fst ix,
           actions_by_input = snd ix \<rparr>)"


section \<open>Summaries\<close>

record file_summary =
  fs_id :: string
  fs_name :: json
  fs_sha1 :: json
  fs_encodingFormat :: json
  fs_exampleOfWork :: json

record dataset_summary =
  ds_id :: string
  ds_name :: json

record param_summary =
  ps_id :: string
  ps_name :: json
  ps_value :: json
  ps_exampleOfWork :: json

record action_summary =
  as_id :: string
  as_name :: json
  as_startTime :: json
  as_endTime :: json

record tool_summary =
  ts_id :: string
  ts_name :: json
  ts_type :: json
  ts_inputs :: json
  ts_outputs :: json

record other_summary =
  os_id :: string
  os_type :: json

definition summarise_file :: "entity \<Rightarrow> file_summary" where
  "summarise_file ent =
     \<lparr> fs_id = eid ent,
       fs_name = py_get ent ''alternateName'',
       fs_sha1 = py_get ent ''sha1'',
       fs_encodingFormat = py_or (py_get ent ''encodingFormat'') (py_get ent ''fileFormat''),
       fs_exampleOfWork = py_get ent ''exampleOfWork'' \<rparr>"

definition summarise_dataset :: "entity \<Rightarrow> dataset_summary" where
  "summarise_dataset ent = \<lparr> ds_id = eid ent, ds_name = py_get ent ''alternateName'' \<rparr>"

definition summarise_param :: "entity \<Rightarrow> param_summary" where
  "summarise_param ent =
     \<lparr> ps_id = eid ent,
       ps_name = py_get ent ''name'',
       ps_value = py_get ent ''value'',
       ps_exampleOfWork = py_get ent ''exampleOfWork'' \<rparr>"

definition summarise_action :: "entity \<Rightarrow> action_summary" where
  "summarise_action ent =
     \<lparr> as_id = eid ent,
       as_name = py_get ent ''name'',
       as_startTime = py_get ent ''startTime'',
       as_endTime = py_get ent ''endTime'' \<rparr>"

definition summarise_tool :: "entity option \<Rightarrow> tool_summary option" where
  "summarise_tool e =
     (case e of
        None \<Rightarrow> None
      | Some ent \<Rightarrow>
          Some \<lparr> ts_id = eid ent,
                 ts_name = py_get ent ''name'',
                 ts_type = py_get ent ''@type'',
                 ts_inputs = py_get_default ent ''input'' (JArr []),
                 ts_outputs = py_get_default ent ''output'' (JArr []) \<rparr>)"

text \<open>The \<^verbatim>\<open>{"id": ..., "type": ...}\<close> literal of the last bucket.\<close>

definition summarise_other :: "entity \<Rightarrow> other_summary" where
  "summarise_other ent = \<lparr> os_id = eid ent, os_type = py_get ent ''@type'' \<rparr>"

section \<open>Selector resolution\<close>

text \<open>\<^verbatim>\<open>_find_files_by_altname\<close>: \<^verbatim>\<open>pattern in alt\<close> on strings is \<^const>\<open>sublist\<close>.\<close>

definition find_files_by_altname :: "crate \<Rightarrow> string \<Rightarrow> entity list" where
  "find_files_by_altname c pattern =
     filter (\<lambda>e. has_type e ''File'' \<and>
                 (case py_get_default e ''alternateName'' (JStr []) of
                    JStr alt \<Rightarrow> sublist pattern alt
                  | _ \<Rightarrow> False))
       (graph c)"

definition get_file_entities :: "crate \<Rightarrow> string \<Rightarrow> entity list" where
  "get_file_entities c file_selector =
     (let case1 = (case map_of (by_id c) file_selector of
                     None \<Rightarrow> None
                   | Some ent \<Rightarrow> if has_type ent ''File'' then Some ent else None)
      in case case1 of
           Some ent \<Rightarrow> [ent]
         | None \<Rightarrow>
             (let vals = map snd (by_id c);
                  exact = filter (\<lambda>e. has_type e ''File'' \<and>
                                     py_get e ''alternateName'' = JStr file_selector) vals
              in if exact \<noteq> [] then exact else find_files_by_altname c file_selector))"

section \<open>Tool resolution and input partitioning\<close>

text \<open>\<^verbatim>\<open>self.by_id.get(oid)\<close>, where \<^verbatim>\<open>oid\<close> may be \<^verbatim>\<open>None\<close>.\<close>

definition by_id_get :: "crate \<Rightarrow> string option \<Rightarrow> entity option" where
  "by_id_get c oid = (case oid of None \<Rightarrow> None | Some k \<Rightarrow> map_of (by_id c) k)"

text \<open>
  \<^verbatim>\<open>inst = act.get("instrument")\<close>,
  \<^verbatim>\<open>inst_id = inst.get("@id") if isinstance(inst, dict) else inst\<close>,
  \<^verbatim>\<open>tool = self.by_id.get(inst_id) if inst_id else None\<close>.
\<close>

definition resolve_tool :: "crate \<Rightarrow> entity \<Rightarrow> entity option" where
  "resolve_tool c act =
     (let inst_id = (case instrument act of None \<Rightarrow> None | Some inst \<Rightarrow> ref_oid inst)
      in case inst_id of
           None \<Rightarrow> None
         | Some i \<Rightarrow> if i \<noteq> [] then map_of (by_id c) i else None)"

record inputs =
  in_files :: "file_summary list"
  in_datasets :: "dataset_summary list"
  in_parameters :: "param_summary list"
  in_other :: "other_summary list"

definition empty_inputs :: inputs where
  "empty_inputs = \<lparr> in_files = [], in_datasets = [], in_parameters = [], in_other = [] \<rparr>"

text \<open>One round of the loop \<^verbatim>\<open>for obj in act.get("object", [])\<close>.\<close>

definition bucket_input :: "crate \<Rightarrow> inputs \<Rightarrow> ref \<Rightarrow> inputs" where
  "bucket_input c inp obj =
     (case by_id_get c (ref_oid obj) of
        None \<Rightarrow> inp
      | Some ent \<Rightarrow>
          if has_type ent ''File'' then
            inp\<lparr> in_files := in_files inp @ [summarise_file ent] \<rparr>
          else if has_type ent ''Dataset'' then
            inp\<lparr> in_datasets := in_datasets inp @ [summarise_dataset ent] \<rparr>
          else if has_type ent ''PropertyValue'' then
            inp\<lparr> in_parameters := in_parameters inp @ [summarise_param ent] \<rparr>
          else
            inp\<lparr> in_other := in_other inp @ [summarise_other ent] \<rparr>)"

definition partition_inputs :: "crate \<Rightarrow> ref list \<Rightarrow> inputs" where
  "partition_inputs c objs = foldl (bucket_input c) empty_inputs objs"

section \<open>Direct lineage\<close>

datatype py_error = KeyError string

record produced_by =
  pb_action :: action_summary
  pb_tool :: "tool_summary option"
  pb_inputs :: inputs

record lineage =
  lin_file :: file_summary
  lin_produced_by :: "produced_by option"
  lin_site_ids :: "json list"
  lin_note :: "string option"

definition no_producer :: "entity \<Rightarrow> lineage" where
  "no_producer f =
     \<lparr> lin_file = summarise_file f,
       lin_produced_by = None,
       lin_site_ids = [],
       lin_note = Some ''No CreateAction found that lists this file in its result.'' \<rparr>"

text \<open>
  The body of \<^verbatim>\<open>for act_id in producers\<close>; \<^verbatim>\<open>self.by_id[act_id]\<close> raises
  \<^verbatim>\<open>KeyError\<close> on a missing key.
\<close>

definition lineage_for_action :: "crate \<Rightarrow> entity \<Rightarrow> string \<Rightarrow> py_error + lineage" where
  "lineage_for_action c f act_id =
     (case map_of (by_id c) act_id of
        None \<Rightarrow> Inl (KeyError act_id)
      | Some act \<Rightarrow>
          (let tool = resolve_tool c act;
               inps = partition_inputs c (object act);
               site_ids = map ps_value
                            (filter (\<lambda>p. ps_name p = JStr ''site_id'') (in_parameters inps))
           in Inr \<lparr> lin_file = summarise_file f,
                    lin_produced_by =
                      Some \<lparr> pb_action = summarise_action act,
                             pb_tool = summarise_tool tool,
                             pb_inputs = inps \<rparr>,
                    lin_site_ids = site_ids,
                    lin_note = None \<rparr>))"

fun lineage_producers ::
  "crate \<Rightarrow> entity \<Rightarrow> lineage list \<Rightarrow> string list \<Rightarrow> py_error + lineage list" where
  "lineage_producers c f results [] = Inr results"
| "lineage_producers c f results (act_id # rest) =
     (case lineage_for_action c f act_id of
        Inl e \<Rightarrow> Inl e
      | Inr r \<Rightarrow> lineage_producers c f (results @ [r]) rest)"

fun lineage_files :: "crate \<Rightarrow> lineage list \<Rightarrow> entity list \<Rightarrow> py_error + lineage list" where
  "lineage_files c results [] = Inr results"
| "lineage_files c results (f # fs) =
     (let producers = dict_get_list (actions_by_result c) (eid f)
      in if producers = [] then lineage_files c (results @ [no_producer f]) fs
         else (case lineage_producers c f results producers of
                 Inl e \<Rightarrow> Inl e
               | Inr results' \<Rightarrow> lineage_files c results' fs))"

definition get_file_lineage :: "crate \<Rightarrow> string \<Rightarrow> py_error + lineage list" where
  "get_file_lineage c file_selector = lineage_files c [] (get_file_entities c file_selector)"


section \<open>Traversals\<close>

datatype edge_type = Used | Generated

record edge =
  edge_type :: edge_type
  edge_action :: string
  edge_entity :: string

text \<open>A value of \<^verbatim>\<open>entity_nodes\<close>: a file summary or a dataset summary.\<close>

datatype node = FileNode file_summary | DatasetNode dataset_summary

record outputs =
  out_files :: "file_summary list"
  out_datasets :: "dataset_summary list"
  out_other :: "other_summary list"

text \<open>
  A value of \<^verbatim>\<open>action_nodes\<close>; the key \<^verbatim>\<open>outputs\<close> exists only in the
  descendants walk.
\<close>

record action_node =
  an_action :: action_summary
  an_tool :: "tool_summary option"
  an_inputs :: inputs
  an_outputs :: "outputs option"

text \<open>
  The local variables of a walk: the deque \<^verbatim>\<open>q\<close> (here \<open>queue\<close>), the two visited
  sets, the two result dictionaries and the edge list.
\<close>

record walk =
  queue :: "(string \<times> int) list"
  visited_entities :: "string set"
  visited_actions :: "string set"
  entity_nodes :: "(string \<times> node) list"
  action_nodes :: "(string \<times> action_node) list"
  edges :: "edge list"

definition init_walk :: "string list \<Rightarrow> walk" where
  "init_walk root_ids =
     \<lparr> queue = map (\<lambda>fid. (fid, 0)) root_ids,
       visited_entities = {},
       visited_actions = {},
       entity_nodes = [],
       action_nodes = [],
       edges = [] \<rparr>"

text \<open>\<^verbatim>\<open>max_depth is None or depth + 1 <= max_depth\<close>.\<close>

definition within_depth :: "int option \<Rightarrow> int \<Rightarrow> bool" where
  "within_depth max_depth depth =
     (case max_depth of None \<Rightarrow> True | Some m \<Rightarrow> depth + 1 \<le> m)"

record subgraph =
  res_root_files :: "file_summary list"
  res_entities :: "(string \<times> node) list"
  res_actions :: "(string \<times> action_node) list"
  res_edges :: "edge list"

record descendants = subgraph +
  res_descendant_files :: "node list"

subsection \<open>\<^verbatim>\<open>get_file_ancestry\<close>\<close>

text \<open>
  The body of \<^verbatim>\<open>for f_in in inputs["files"]\<close> and of
  \<^verbatim>\<open>for d_in in inputs["datasets"]\<close>, on \<^verbatim>\<open>in_id\<close>.
\<close>

definition anc_input :: "int option \<Rightarrow> string \<Rightarrow> int \<Rightarrow> walk \<Rightarrow> string \<Rightarrow> walk" where
  "anc_input max_depth act_id depth s in_id =
     (let s1 = s\<lparr> edges := edges s @
                   [\<lparr> edge_type = Used, edge_action = act_id, edge_entity = in_id \<rparr>] \<rparr>
      in if within_depth max_depth depth
         then s1\<lparr> queue := queue s1 @ [(in_id, depth + 1)] \<rparr>
         else s1)"

text \<open>The body of \<^verbatim>\<open>for act_id in self.actions_by_result.get(ent_id, [])\<close>.\<close>

definition anc_action :: "crate \<Rightarrow> int option \<Rightarrow> string \<Rightarrow> int \<Rightarrow> walk \<Rightarrow> string \<Rightarrow> walk" where
  "anc_action c max_depth ent_id depth s act_id =
     (case map_of (by_id c) act_id of
        None \<Rightarrow> s
      | Some act \<Rightarrow>
          (let s1 = s\<lparr> edges := edges s @
                        [\<lparr> edge_type = Generated, edge_action = act_id,
                           edge_entity = ent_id \<rparr>] \<rparr>
           in if act_id \<in> visited_actions s1 then s1
              else
                (let s2 = s1\<lparr> visited_actions := insert act_id (visited_actions s1) \<rparr>;
                     tool = resolve_tool c act;
                     inps = partition_inputs c (object act);
                     s3 = s2\<lparr> action_nodes :=
                               AList.update act_id
                                 \<lparr> an_action = summarise_action act,
                                   an_tool = summarise_tool tool,
                                   an_inputs = inps,
                                   an_outputs = None \<rparr>
                                 (action_nodes s2) \<rparr>;
                     s4 = foldl (anc_input max_depth act_id depth) s3
                            (map fs_id (in_files inps))
                 in foldl (anc_input max_depth act_id depth) s4
                      (map ds_id (in_datasets inps)))))"

text \<open>The body of the \<^verbatim>\<open>while q\<close> loop after \<^verbatim>\<open>q.popleft()\<close>.\<close>

definition anc_visit :: "crate \<Rightarrow> int option \<Rightarrow> walk \<Rightarrow> string \<times> int \<Rightarrow> walk" where
  "anc_visit c max_depth s item =
     (let ent_id = fst item; depth = snd item
      in if ent_id \<in> visited_entities s then s
         else
           (let s1 = s\<lparr> visited_entities := insert ent_id (visited_entities s) \<rparr>
            in case map_of (by_id c) ent_id of
                 None \<Rightarrow> s1
               | Some ent \<Rightarrow>
                   if has_type ent ''File'' then
                     foldl (anc_action c max_depth ent_id depth)
                       (s1\<lparr> entity_nodes :=
                              AList.update ent_id (FileNode (summarise_file ent))
                                (entity_nodes s1) \<rparr>)
                       (dict_get_list (actions_by_result c) ent_id)
                   else if has_type ent ''Dataset'' then
                     foldl (anc_action c max_depth ent_id depth)
                       (s1\<lparr> entity_nodes :=
                              AList.update ent_id (DatasetNode (summarise_dataset ent))
                                (entity_nodes s1) \<rparr>)
                       (dict_get_list (actions_by_result c) ent_id)
                   else s1))"

definition anc_step :: "crate \<Rightarrow> int option \<Rightarrow> walk \<Rightarrow> walk" where
  "anc_step c max_depth s =
     (case queue s of
        [] \<Rightarrow> s
      | item # rest \<Rightarrow> anc_visit c max_depth (s\<lparr> queue := rest \<rparr>) item)"

text \<open>The loop \<^verbatim>\<open>while q\<close>; \<open>None\<close> is a loop that never ends.\<close>

definition anc_loop :: "crate \<Rightarrow> int option \<Rightarrow> walk \<Rightarrow> walk option" where
  "anc_loop c max_depth s = while_option (\<lambda>s. queue s \<noteq> []) (anc_step c max_depth) s"

definition empty_subgraph :: subgraph where
  "empty_subgraph =
     \<lparr> res_root_files = [], res_entities = [], res_actions = [], res_edges = [] \<rparr>"

definition get_file_ancestry :: "crate \<Rightarrow> string \<Rightarrow> int option \<Rightarrow> subgraph option" where
  "get_file_ancestry c file_selector max_depth =
     (let files = get_file_entities c file_selector
      in if files = [] then Some empty_subgraph
         else
           (case anc_loop c max_depth (init_walk (map eid files)) of
              None \<Rightarrow> None
            | Some s \<Rightarrow>
                Some \<lparr> res_root_files = map summarise_file files,
                       res_entities = entity_nodes s,
                       res_actions = action_nodes s,
                       res_edges = edges s \<rparr>))"

subsection \<open>\<^verbatim>\<open>get_file_descendants\<close>\<close>

definition empty_outputs :: outputs where
  "empty_outputs = \<lparr> out_files = [], out_datasets = [], out_other = [] \<rparr>"

text \<open>
  One round of \<^verbatim>\<open>for res in act.get("result", [])\<close>: it fills the output buckets,
  and appends to \<^verbatim>\<open>edges\<close> and to the queue.
\<close>

definition desc_output ::
  "crate \<Rightarrow> int option \<Rightarrow> string \<Rightarrow> int \<Rightarrow> walk \<times> outputs \<Rightarrow> ref \<Rightarrow> walk \<times> outputs" where
  "desc_output c max_depth act_id depth so res =
     (case by_id_get c (ref_oid res) of
        None \<Rightarrow> so
      | Some ent2 \<Rightarrow>
          (let s = fst so; outs = snd so;
               s1 = s\<lparr> edges := edges s @
                        [\<lparr> edge_type = Generated, edge_action = act_id,
                           edge_entity = eid ent2 \<rparr>] \<rparr>;
               s2 = (if within_depth max_depth depth
                     then s1\<lparr> queue := queue s1 @ [(eid ent2, depth + 1)] \<rparr>
                     else s1)
           in if has_type ent2 ''File'' then
                (s2, outs\<lparr> out_files := out_files outs @ [summarise_file ent2] \<rparr>)
              else if has_type ent2 ''Dataset'' then
                (s2, outs\<lparr> out_datasets := out_datasets outs @ [summarise_dataset ent2] \<rparr>)
              else
                (s, outs\<lparr> out_other := out_other outs @ [summarise_other ent2] \<rparr>)))"

text \<open>The body of \<^verbatim>\<open>for act_id in self.actions_by_input.get(ent_id, [])\<close>.\<close>

definition desc_action :: "crate \<Rightarrow> int option \<Rightarrow> string \<Rightarrow> int \<Rightarrow> walk \<Rightarrow> string \<Rightarrow> walk" where
  "desc_action c max_depth ent_id depth s act_id =
     (case map_of (by_id c) act_id of
        None \<Rightarrow> s
      | Some act \<Rightarrow>
          (let s1 = s\<lparr> edges := edges s @
                        [\<lparr> edge_type = Used, edge_action = act_id,
                           edge_entity = ent_id \<rparr>] \<rparr>
           in if act_id \<in> visited_actions s1 then s1
              else
                (let s2 = s1\<lparr> visited_actions := insert act_id (visited_actions s1) \<rparr>;
                     tool = resolve_tool c act;
                     inps = partition_inputs c (object act);
                     so = foldl (desc_output c max_depth act_id depth) (s2, empty_outputs)
                            (result act);
                     s3 = fst so
                 in s3\<lparr> action_nodes :=
                          AList.update act_id
                            \<lparr> an_action = summarise_action act,
                              an_tool = summarise_tool tool,
                              an_inputs = inps,
                              an_outputs = Some (snd so) \<rparr>
                            (action_nodes s3) \<rparr>)))"

definition desc_visit :: "crate \<Rightarrow> int option \<Rightarrow> walk \<Rightarrow> string \<times> int \<Rightarrow> walk" where
  "desc_visit c max_depth s item =
     (let ent_id = fst item; depth = snd item
      in if ent_id \<in> visited_entities s then s
         else
           (let s1 = s\<lparr> visited_entities := insert ent_id (visited_entities s) \<rparr>
            in case map_of (by_id c) ent_id of
                 None \<Rightarrow> s1
               | Some ent \<Rightarrow>
                   if has_type ent ''File'' then
                     foldl (desc_action c max_depth ent_id depth)
                       (s1\<lparr> entity_nodes :=
                              AList.update ent_id (FileNode (summarise_file ent))
                                (entity_nodes s1) \<rparr>)
                       (dict_get_list (actions_by_input c) ent_id)
                   else if has_type ent ''Dataset'' then
                     foldl (desc_action c max_depth ent_id depth)
                       (s1\<lparr> entity_nodes :=
                              AList.update ent_id (DatasetNode (summarise_dataset ent))
                                (entity_nodes s1) \<rparr>)
                       (dict_get_list (actions_by_input c) ent_id)
                   else s1))"

definition desc_step :: "crate \<Rightarrow> int option \<Rightarrow> walk \<Rightarrow> walk" where
  "desc_step c max_depth s =
     (case queue s of
        [] \<Rightarrow> s
      | item # rest \<Rightarrow> desc_visit c max_depth (s\<lparr> queue := rest \<rparr>) item)"

definition desc_loop :: "crate \<Rightarrow> int option \<Rightarrow> walk \<Rightarrow> walk option" where
  "desc_loop c max_depth s = while_option (\<lambda>s. queue s \<noteq> []) (desc_step c max_depth) s"

text \<open>\<^verbatim>\<open>summary.get("sha1")\<close> on a value of \<^verbatim>\<open>entity_nodes\<close>.\<close>

definition node_sha1 :: "node \<Rightarrow> json" where
  "node_sha1 n = (case n of FileNode fs \<Rightarrow> fs_sha1 fs | DatasetNode ds \<Rightarrow> JNull)"

text \<open>The loop that collects \<^verbatim>\<open>descendant_files\<close> from \<^verbatim>\<open>entity_nodes.items()\<close>.\<close>

definition collect_descendant_files :: "string list \<Rightarrow> (string \<times> node) list \<Rightarrow> node list" where
  "collect_descendant_files root_ids nodes =
     map snd (filter (\<lambda>kv. fst kv \<notin> set root_ids \<and> node_sha1 (snd kv) \<noteq> JNull) nodes)"

definition empty_descendants :: descendants where
  "empty_descendants =
     \<lparr> res_root_files = [], res_entities = [], res_actions = [], res_edges = [],
       res_descendant_files = [] \<rparr>"

definition get_file_descendants :: "crate \<Rightarrow> string \<Rightarrow> int option \<Rightarrow> descendants option" where
  "get_file_descendants c file_selector max_depth =
     (let roots = get_file_entities c file_selector
      in if roots = [] then Some empty_descendants
         else
           (let root_ids = map eid roots
            in case desc_loop c max_depth (init_walk root_ids) of
                 None \<Rightarrow> None
               | Some s \<Rightarrow>
                   Some \<lparr> res_root_files = map summarise_file roots,
                          res_entities = entity_nodes s,
                          res_actions = action_nodes s,
                          res_edges = edges s,
                          res_descendant_files =
                            collect_descendant_files root_ids (entity_nodes s) \<rparr>))"

section \<open>Step runs of a site (\<^verbatim>\<open>get_site_artifacts\<close>, part 4)\<close>

text \<open>
  The inner loop over \<^verbatim>\<open>act.get("object", [])\<close> that ends with
  \<^verbatim>\<open>site_action_ids.add(act["@id"]); break\<close>: true when the \<^verbatim>\<open>add\<close> is reached.
\<close>

fun site_tagged :: "crate \<Rightarrow> string \<Rightarrow> ref list \<Rightarrow> bool" where
  "site_tagged c site_id [] = False"
| "site_tagged c site_id (obj # rest) =
     (case by_id_get c (ref_oid obj) of
        None \<Rightarrow> site_tagged c site_id rest
      | Some ent \<Rightarrow>
          if has_type ent ''PropertyValue'' \<and> py_get ent ''name'' = JStr ''site_id''
             \<and> py_get ent ''value'' = JStr site_id
          then True
          else site_tagged c site_id rest)"

definition site_action_ids :: "crate \<Rightarrow> string \<Rightarrow> string set" where
  "site_action_ids c site_id =
     foldl (\<lambda>ids act. if site_tagged c site_id (object act) then insert (eid act) ids else ids)
       {} (actions c)"

record step_run =
  sr_action :: action_summary
  sr_tool :: "tool_summary option"
  sr_site_ids :: "json list"

definition summarise_run :: "crate \<Rightarrow> entity \<Rightarrow> step_run" where
  "summarise_run c act =
     \<lparr> sr_action = summarise_action act,
       sr_tool = summarise_tool (resolve_tool c act),
       sr_site_ids =
         concat (map (\<lambda>obj. case by_id_get c (ref_oid obj) of
                              None \<Rightarrow> []
                            | Some ent \<Rightarrow>
                                if has_type ent ''PropertyValue''
                                   \<and> py_get ent ''name'' = JStr ''site_id''
                                then [py_get ent ''value'']
                                else [])
                   (object act)) \<rparr>"

text \<open>
  \<^verbatim>\<open>[summarise_run(self.by_id[aid]) for aid in sorted(site_action_ids)]\<close>; Python
  compares strings by code point, position by position, and so does the order on
  \<^typ>\<open>string\<close>.
\<close>

fun step_runs_of :: "crate \<Rightarrow> string list \<Rightarrow> py_error + step_run list" where
  "step_runs_of c [] = Inr []"
| "step_runs_of c (aid # rest) =
     (case map_of (by_id c) aid of
        None \<Rightarrow> Inl (KeyError aid)
      | Some act \<Rightarrow>
          (case step_runs_of c rest of
             Inl e \<Rightarrow> Inl e
           | Inr runs \<Rightarrow> Inr (summarise_run c act # runs)))"

definition site_step_runs :: "crate \<Rightarrow> string \<Rightarrow> py_error + step_run list" where
  "site_step_runs c site_id = step_runs_of c (sorted_list_of_set (site_action_ids c site_id))"


section \<open>Notions the properties are stated with\<close>

text \<open>
  The ids of the actions of \<open>acts\<close> whose reference list \<open>field\<close> names \<open>x\<close> (inline or
  in a nested object), in the order of \<open>acts\<close>, once for each such reference.
\<close>

definition referencing :: "(entity \<Rightarrow> ref list) \<Rightarrow> entity list \<Rightarrow> string \<Rightarrow> string list" where
  "referencing field acts x =
     concat (map (\<lambda>a. map (\<lambda>_. eid a) (filter (\<lambda>r. ref_oid r = Some x) (field a))) acts)"

section \<open>Example graphs\<close>

text \<open>
  The chain of the test fixture \<^verbatim>\<open>multi_file_crate\<close> (raw, processed and final file,
  two actions), with content hashes, a site parameter, a dangling input reference and
  an output without a content hash.
\<close>

definition ent_raw :: entity where
  "ent_raw =
     \<lparr> eid = ''raw.csv'',
       attrs = [(''@type'', JStr ''File''), (''alternateName'', JStr ''raw.csv''),
                (''sha1'', JStr ''aa'')],
       instrument = None, object = [], result = [] \<rparr>"

definition ent_a1 :: entity where
  "ent_a1 =
     \<lparr> eid = ''#a1'',
       attrs = [(''@type'', JStr ''CreateAction''), (''name'', JStr ''Process raw data'')],
       instrument = Some (Nested (Some ''#tool1'')),
       object = [Nested (Some ''raw.csv''), Nested (Some ''#p1''), Inline ''ghost''],
       result = [Nested (Some ''processed.csv'')] \<rparr>"

definition ent_processed :: entity where
  "ent_processed =
     \<lparr> eid = ''processed.csv'',
       attrs = [(''@type'', JArr [JStr ''File'', JStr ''CreativeWork'']),
                (''alternateName'', JStr ''processed.csv''), (''sha1'', JStr ''bb'')],
       instrument = None, object = [], result = [] \<rparr>"

definition ent_a2 :: entity where
  "ent_a2 =
     \<lparr> eid = ''#a2'',
       attrs = [(''@type'', JStr ''CreateAction''), (''name'', JStr ''Generate final output'')],
       instrument = Some (Inline ''#tool1''),
       object = [Inline ''processed.csv'', Nested (Some ''#p1'')],
       result = [Nested (Some ''final.csv''), Inline ''plot.png''] \<rparr>"

definition ent_final :: entity where
  "ent_final =
     \<lparr> eid = ''final.csv'',
       attrs = [(''@type'', JStr ''File''), (''alternateName'', JStr ''final.csv''),
                (''sha1'', JStr ''cc'')],
       instrument = None, object = [], result = [] \<rparr>"

definition ent_plot :: entity where
  "ent_plot =
     \<lparr> eid = ''plot.png'',
       attrs = [(''@type'', JStr ''File''), (''alternateName'', JStr ''plot.png'')],
       instrument = None, object = [], result = [] \<rparr>"

definition ent_tool1 :: entity where
  "ent_tool1 =
     \<lparr> eid = ''#tool1'',
       attrs = [(''@type'', JStr ''SoftwareApplication''), (''name'', JStr ''process-tool'')],
       instrument = None, object = [], result = [] \<rparr>"

definition ent_p1 :: entity where
  "ent_p1 =
     \<lparr> eid = ''#p1'',
       attrs = [(''@type'', JStr ''PropertyValue''), (''name'', JStr ''site_id''),
                (''value'', JStr ''site001'')],
       instrument = None, object = [], result = [] \<rparr>"

definition chain_graph :: "entity list" where
  "chain_graph =
     [ent_raw, ent_a1, ent_processed, ent_a2, ent_final, ent_plot, ent_tool1, ent_p1]"

text \<open>An entity whose id is the empty string, and an action that lists it as a result.\<close>

definition ent_blank :: entity where
  "ent_blank =
     \<lparr> eid = [],
       attrs = [(''@type'', JStr ''File'')],
       instrument = None, object = [], result = [] \<rparr>"

definition ent_a0 :: entity where
  "ent_a0 =
     \<lparr> eid = ''#a0'',
       attrs = [(''@type'', JStr ''CreateAction'')],
       instrument = None, object = [Inline []], result = [Inline []] \<rparr>"

definition blank_graph :: "entity list" where
  "blank_graph = [ent_blank, ent_a0]"

text \<open>A file that one action lists twice in its \<^verbatim>\<open>result\<close>.\<close>

definition ent_dx :: entity where
  "ent_dx =
     \<lparr> eid = ''d.csv'',
       attrs = [(''@type'', JStr ''File''), (''alternateName'', JStr ''d.csv'')],
       instrument = None, object = [], result = [] \<rparr>"

definition ent_dup :: entity where
  "ent_dup =
     \<lparr> eid = ''#dup'',
       attrs = [(''@type'', JStr ''CreateAction'')],
       instrument = None, object = [],
       result = [Inline ''d.csv'', Nested (Some ''d.csv'')] \<rparr>"

definition dup_graph :: "entity list" where
  "dup_graph = [ent_dx, ent_dup]"

text \<open>
  The display name of an entity: its \<^verbatim>\<open>alternateName\<close> when that is a string. The
  substring rule reads a missing \<^verbatim>\<open>alternateName\<close> as the empty string
  (\<^verbatim>\<open>e.get("alternateName", "")\<close>).
\<close>

definition display_name :: "entity \<Rightarrow> string option" where
  "display_name e =
     (case map_of (attrs e) ''alternateName'' of Some (JStr s) \<Rightarrow> Some s | _ \<Rightarrow> None)"

definition display_name_or_empty :: "entity \<Rightarrow> string option" where
  "display_name_or_empty e =
     (case map_of (attrs e) ''alternateName'' of
        None \<Rightarrow> Some [] | Some (JStr s) \<Rightarrow> Some s | Some _ \<Rightarrow> None)"

text \<open>The three rules of the selector, each over the graph in graph order.\<close>

definition by_id_match :: "entity list \<Rightarrow> string \<Rightarrow> entity list" where
  "by_id_match g sel = filter (\<lambda>e. eid e = sel \<and> has_type e ''File'') g"

definition by_exact_name :: "entity list \<Rightarrow> string \<Rightarrow> entity list" where
  "by_exact_name g sel = filter (\<lambda>e. has_type e ''File'' \<and> display_name e = Some sel) g"

definition by_name_part :: "entity list \<Rightarrow> string \<Rightarrow> entity list" where
  "by_name_part g sel =
     filter (\<lambda>e. has_type e ''File'' \<and>
                 (case display_name_or_empty e of Some n \<Rightarrow> sublist sel n | None \<Rightarrow> False)) g"

text \<open>The third rule as the specification words it: only a display name that exists.\<close>

definition by_name_part_strict :: "entity list \<Rightarrow> string \<Rightarrow> entity list" where
  "by_name_part_strict g sel =
     filter (\<lambda>e. has_type e ''File'' \<and>
                 (case display_name e of Some n \<Rightarrow> sublist sel n | None \<Rightarrow> False)) g"

definition resolve_spec :: "entity list \<Rightarrow> string \<Rightarrow> entity list" where
  "resolve_spec g sel =
     (if by_id_match g sel \<noteq> [] then by_id_match g sel
      else if by_exact_name g sel \<noteq> [] then by_exact_name g sel
      else by_name_part g sel)"


text \<open>Two files, the second one named like the id of the first; a file with no name.\<close>

definition ent_f1 :: entity where
  "ent_f1 =
     \<lparr> eid = ''f1'',
       attrs = [(''@type'', JStr ''File''), (''alternateName'', JStr ''one.csv'')],
       instrument = None, object = [], result = [] \<rparr>"

definition ent_f2 :: entity where
  "ent_f2 =
     \<lparr> eid = ''f2'',
       attrs = [(''@type'', JStr ''File''), (''alternateName'', JStr ''f1'')],
       instrument = None, object = [], result = [] \<rparr>"

definition ent_unnamed :: entity where
  "ent_unnamed =
     \<lparr> eid = ''f0'',
       attrs = [(''@type'', JStr ''File'')],
       instrument = None, object = [], result = [] \<rparr>"

text \<open>
  The bucket an input or output entity falls into: the order of the \<^verbatim>\<open>if\<close>/\<^verbatim>\<open>elif\<close>
  chain decides for an entity with several types.
\<close>

datatype bucket = Artifact | Container | Parameter | Other

definition bucket_of :: "entity \<Rightarrow> bucket" where
  "bucket_of ent =
     (if has_type ent ''File'' then Artifact
      else if has_type ent ''Dataset'' then Container
      else if has_type ent ''PropertyValue'' then Parameter
      else Other)"

text \<open>The entities that the references of a list resolve to, in order.\<close>

definition resolved :: "crate \<Rightarrow> ref list \<Rightarrow> entity list" where
  "resolved c refs = List.map_filter (\<lambda>obj. by_id_get c (ref_oid obj)) refs"

text \<open>
  The values of the parameter inputs of an action that are named \<^verbatim>\<open>site_id\<close>, in the
  order of the action's \<^verbatim>\<open>object\<close> list.
\<close>

definition site_ids_of :: "crate \<Rightarrow> entity \<Rightarrow> json list" where
  "site_ids_of c act =
     map (\<lambda>p. py_get p ''value'')
       (filter (\<lambda>p. bucket_of p = Parameter \<and> py_get p ''name'' = JStr ''site_id'')
          (resolved c (object act)))"

text \<open>
  The tool of an action, stated from the graph: the summary of the entity that the
  non-empty id of the action's \<^verbatim>\<open>instrument\<close> names, if there is one.
\<close>

definition tool_of :: "crate \<Rightarrow> entity \<Rightarrow> tool_summary option" where
  "tool_of c act =
     (case instrument act of
        None \<Rightarrow> None
      | Some inst \<Rightarrow>
          (case ref_oid inst of
             None \<Rightarrow> None
           | Some i \<Rightarrow>
               if i = [] then None
               else (case map_of (by_id c) i of
                       None \<Rightarrow> None
                     | Some t \<Rightarrow>
                         Some \<lparr> ts_id = eid t,
                                ts_name = py_get t ''name'',
                                ts_type = py_get t ''@type'',
                                ts_inputs = py_get_default t ''input'' (JArr []),
                                ts_outputs = py_get_default t ''output'' (JArr []) \<rparr>)))"

text \<open>The inputs of an action in their four buckets, each in the order of \<^verbatim>\<open>object\<close>.\<close>

definition input_buckets :: "crate \<Rightarrow> entity \<Rightarrow> inputs" where
  "input_buckets c act =
     \<lparr> in_files =
         map summarise_file (filter (\<lambda>e. bucket_of e = Artifact) (resolved c (object act))),
       in_datasets =
         map summarise_dataset
           (filter (\<lambda>e. bucket_of e = Container) (resolved c (object act))),
       in_parameters =
         map summarise_param (filter (\<lambda>e. bucket_of e = Parameter) (resolved c (object act))),
       in_other =
         map summarise_other (filter (\<lambda>e. bucket_of e = Other) (resolved c (object act))) \<rparr>"

text \<open>
  The lineage record of file \<open>f\<close> for a producing action, and the records of \<open>f\<close>: one
  for each entry that \<^verbatim>\<open>actions_by_result\<close> holds under the id of \<open>f\<close>, or the single
  record without producer when it holds none.
\<close>

definition lineage_record :: "crate \<Rightarrow> entity \<Rightarrow> entity \<Rightarrow> lineage" where
  "lineage_record c f act =
     \<lparr> lin_file = summarise_file f,
       lin_produced_by =
         Some \<lparr> pb_action = summarise_action act,
                pb_tool = tool_of c act,
                pb_inputs = input_buckets c act \<rparr>,
       lin_site_ids = site_ids_of c act,
       lin_note = None \<rparr>"

definition lineage_records :: "crate \<Rightarrow> entity \<Rightarrow> lineage list" where
  "lineage_records c f =
     (let producers = dict_get_list (actions_by_result c) (eid f)
      in if producers = [] then
           [\<lparr> lin_file = summarise_file f,
              lin_produced_by = None,
              lin_site_ids = [],
              lin_note = Some ''No CreateAction found that lists this file in its result.'' \<rparr>]
         else concat (map (\<lambda>act_id. case map_of (by_id c) act_id of
                                       None \<Rightarrow> []
                                     | Some act \<Rightarrow> [lineage_record c f act])
                        producers))"

text \<open>
  A site parameter for \<open>site_id\<close>, an action that qualifies for the step runs of the
  site (one of its resolved inputs is such a parameter), and the action ids of a list
  of step runs.
\<close>

definition site_param :: "string \<Rightarrow> entity \<Rightarrow> bool" where
  "site_param site_id p \<longleftrightarrow>
     has_type p ''PropertyValue'' \<and> py_get p ''name'' = JStr ''site_id''
     \<and> py_get p ''value'' = JStr site_id"

definition qualifies :: "crate \<Rightarrow> string \<Rightarrow> entity \<Rightarrow> bool" where
  "qualifies c site_id act = list_ex (site_param site_id) (resolved c (object act))"

definition run_ids :: "step_run list \<Rightarrow> string list" where
  "run_ids runs = map (\<lambda>r. as_id (sr_action r)) runs"

text \<open>Two tagged actions, standing in the graph against the order of their ids.\<close>

definition ent_run_b :: entity where
  "ent_run_b =
     \<lparr> eid = ''#b'',
       attrs = [(''@type'', JStr ''CreateAction'')],
       instrument = None, object = [Inline ''#p1'', Nested (Some ''#p2'')], result = [] \<rparr>"

definition ent_run_a :: entity where
  "ent_run_a =
     \<lparr> eid = ''#a'',
       attrs = [(''@type'', JStr ''CreateAction'')],
       instrument = None, object = [Inline ''#p1''], result = [] \<rparr>"

definition ent_p2 :: entity where
  "ent_p2 =
     \<lparr> eid = ''#p2'',
       attrs = [(''@type'', JStr ''PropertyValue''), (''name'', JStr ''site_id''),
                (''value'', JStr ''site001'')],
       instrument = None, object = [], result = [] \<rparr>"

definition site_graph :: "entity list" where
  "site_graph = [ent_run_b, ent_run_a, ent_p1, ent_p2]"

text \<open>The two edge literals of the walks.\<close>

definition used_edge :: "string \<Rightarrow> string \<Rightarrow> edge" where
  "used_edge a x = \<lparr> edge_type = Used, edge_action = a, edge_entity = x \<rparr>"

definition generated_edge :: "string \<Rightarrow> string \<Rightarrow> edge" where
  "generated_edge a x = \<lparr> edge_type = Generated, edge_action = a, edge_entity = x \<rparr>"

text \<open>
  The ids the ancestry walk takes from an expanded action: its file inputs, then its
  dataset inputs.
\<close>

definition data_inputs :: "crate \<Rightarrow> entity \<Rightarrow> string list" where
  "data_inputs c act =
     map eid (filter (\<lambda>e. bucket_of e = Artifact) (resolved c (object act))) @
     map eid (filter (\<lambda>e. bucket_of e = Container) (resolved c (object act)))"

text \<open>A data artefact: a \<^verbatim>\<open>File\<close> or a \<^verbatim>\<open>Dataset\<close>.\<close>

definition is_data :: "entity \<Rightarrow> bool" where
  "is_data e \<longleftrightarrow> has_type e ''File'' \<or> has_type e ''Dataset''"

text \<open>
  The ids the descendants walk takes from an expanded action (its file and dataset
  outputs, in the order of \<^verbatim>\<open>result\<close>), and its output buckets.
\<close>

definition data_outputs :: "crate \<Rightarrow> ref list \<Rightarrow> string list" where
  "data_outputs c ress = map eid (filter is_data (resolved c ress))"

definition partition_outputs :: "crate \<Rightarrow> ref list \<Rightarrow> outputs" where
  "partition_outputs c ress =
     \<lparr> out_files = map summarise_file (filter (\<lambda>e. bucket_of e = Artifact) (resolved c ress)),
       out_datasets =
         map summarise_dataset (filter (\<lambda>e. bucket_of e = Container) (resolved c ress)),
       out_other = map summarise_other (filter (\<lambda>e. \<not> is_data e) (resolved c ress)) \<rparr>"

definition add_outputs :: "outputs \<Rightarrow> outputs \<Rightarrow> outputs" where
  "add_outputs p q =
     \<lparr> out_files = out_files p @ out_files q,
       out_datasets = out_datasets p @ out_datasets q,
       out_other = out_other p @ out_other q \<rparr>"

text \<open>The summary that a walk stores for a data artefact.\<close>

definition node_of :: "entity \<Rightarrow> node" where
  "node_of e =
     (if has_type e ''File'' then FileNode (summarise_file e)
      else DatasetNode (summarise_dataset e))"

text \<open>The ids of the entities held in \<^verbatim>\<open>by_id\<close>.\<close>

definition known_ids :: "crate \<Rightarrow> string set" where
  "known_ids c = eid ` snd ` set (by_id c)"

text \<open>
  Round \<open>k\<close> of a loop started in \<open>s0\<close> expands entity \<open>x\<close>: it takes \<open>x\<close> from the
  queue, and \<open>x\<close> is not yet visited.
\<close>

definition expanded_at :: "(walk \<Rightarrow> walk) \<Rightarrow> walk \<Rightarrow> nat \<Rightarrow> string \<Rightarrow> bool" where
  "expanded_at step s0 k x =
     (case queue ((step ^^ k) s0) of
        [] \<Rightarrow> False
      | item # rest \<Rightarrow> fst item = x \<and> x \<notin> visited_entities ((step ^^ k) s0))"

text \<open>
  What holds of the local variables of a walk after every round, for the index \<open>idx\<close>
  the walk follows and the edge \<open>pair\<close> it records for an entity and an action of the
  index; and an index whose action ids are all in \<^verbatim>\<open>by_id\<close>.
\<close>

definition walk_inv :: "crate \<Rightarrow> index \<Rightarrow> (string \<Rightarrow> string \<Rightarrow> edge) \<Rightarrow> walk \<Rightarrow> bool" where
  "walk_inv c idx pair s \<longleftrightarrow>
     visited_actions s = fst ` set (action_nodes s)
     \<and> (\<forall>k n. (k, n) \<in> set (entity_nodes s) \<longrightarrow>
           (\<exists>e. map_of (by_id c) k = Some e \<and> is_data e \<and> n = node_of e))
     \<and> (\<forall>x a. x \<in> fst ` set (entity_nodes s) \<and> a \<in> set (dict_get_list idx x) \<longrightarrow>
           pair a x \<in> set (edges s) \<and> a \<in> fst ` set (action_nodes s))
     \<and> (\<forall>a. a \<in> fst ` set (action_nodes s) \<longrightarrow>
           (\<exists>x. x \<in> fst ` set (entity_nodes s) \<and> a \<in> set (dict_get_list idx x)))
     \<and> (\<forall>e. e \<in> set (edges s) \<longrightarrow>
           edge_entity e \<in> known_ids c \<or> map_of (by_id c) (edge_entity e) \<noteq> None)
     \<and> (\<forall>x. x \<in> visited_entities s \<and> (\<exists>e. map_of (by_id c) x = Some e \<and> is_data e) \<longrightarrow>
           x \<in> fst ` set (entity_nodes s))"

definition index_resolves :: "crate \<Rightarrow> index \<Rightarrow> bool" where
  "index_resolves c idx \<longleftrightarrow>
     (\<forall>x a. a \<in> set (dict_get_list idx x) \<longrightarrow> map_of (by_id c) a \<noteq> None)"

text \<open>Two files, each produced from the other: a cycle.\<close>

definition ent_cx :: entity where
  "ent_cx =
     \<lparr> eid = ''x.csv'',
       attrs = [(''@type'', JStr ''File''), (''alternateName'', JStr ''x.csv'')],
       instrument = None, object = [], result = [] \<rparr>"

definition ent_cy :: entity where
  "ent_cy =
     \<lparr> eid = ''y.csv'',
       attrs = [(''@type'', JStr ''File''), (''alternateName'', JStr ''y.csv'')],
       instrument = None, object = [], result = [] \<rparr>"

definition ent_ca :: entity where
  "ent_ca =
     \<lparr> eid = ''#ca'',
       attrs = [(''@type'', JStr ''CreateAction'')],
       instrument = None, object = [Inline ''y.csv''], result = [Inline ''x.csv''] \<rparr>"

definition ent_cb :: entity where
  "ent_cb =
     \<lparr> eid = ''#cb'',
       attrs = [(''@type'', JStr ''CreateAction'')],
       instrument = None, object = [Inline ''x.csv''], result = [Inline ''y.csv''] \<rparr>"

definition cycle_graph :: "entity list" where
  "cycle_graph = [ent_cx, ent_cy, ent_ca, ent_cb]"







section \<open>Index construction\<close>

lemma dict_get_list_Nil [simp]: "dict_get_list [] x = []"
  by (simp add: dict_get_list_def)

lemma dict_get_list_update:
  "dict_get_list (AList.update k v d) x = (if x = k then v else dict_get_list d x)"
  by (simp add: dict_get_list_def update_conv')

lemma index_add_get:
  "dict_get_list (index_add aid idx r) x =
     dict_get_list idx x @ (if ref_oid r = Some x \<and> x \<noteq> [] then [aid] else [])"
  by (cases "ref_oid r") (auto simp: index_add_def dict_get_list_update)

lemma foldl_index_add_get:
  "dict_get_list (foldl (index_add aid) idx rs) x =
     dict_get_list idx x @
     map (\<lambda>_. aid) (filter (\<lambda>r. ref_oid r = Some x \<and> x \<noteq> []) rs)"
  by (induction rs arbitrary: idx) (simp_all add: index_add_get)

lemma foldl_index_action_fst:
  "dict_get_list (fst (foldl index_action ix acts)) x =
     dict_get_list (fst ix) x @
     concat (map (\<lambda>a. map (\<lambda>_. eid a)
                        (filter (\<lambda>r. ref_oid r = Some x \<and> x \<noteq> []) (result a))) acts)"
  by (induction acts arbitrary: ix) (simp_all add: index_action_def foldl_index_add_get)

lemma foldl_index_action_snd:
  "dict_get_list (snd (foldl index_action ix acts)) x =
     dict_get_list (snd ix) x @
     concat (map (\<lambda>a. map (\<lambda>_. eid a)
                        (filter (\<lambda>r. ref_oid r = Some x \<and> x \<noteq> []) (object a))) acts)"
  by (induction acts arbitrary: ix) (simp_all add: index_action_def foldl_index_add_get)

lemma actions_build_indexes [simp]:
  "actions (build_indexes g) = filter (\<lambda>e. has_type e ''CreateAction'') g"
  by (simp add: build_indexes_def Let_def)

lemma graph_build_indexes [simp]: "graph (build_indexes g) = g"
  by (simp add: build_indexes_def Let_def)

lemma actions_by_result_get:
  "dict_get_list (actions_by_result (build_indexes g)) x =
     (if x = [] then [] else referencing result (actions (build_indexes g)) x)"
  by (simp add: build_indexes_def Let_def foldl_index_action_fst referencing_def)

lemma actions_by_input_get:
  "dict_get_list (actions_by_input (build_indexes g)) x =
     (if x = [] then [] else referencing object (actions (build_indexes g)) x)"
  by (simp add: build_indexes_def Let_def foldl_index_action_snd referencing_def)

lemma mem_referencing:
  assumes "distinct (map eid acts)" and "a \<in> set acts"
  shows "eid a \<in> set (referencing field acts x) \<longleftrightarrow> Some x \<in> ref_oid ` set (field a)"
proof
  assume "eid a \<in> set (referencing field acts x)"
  then obtain b r where b: "b \<in> set acts" "r \<in> set (field b)" "ref_oid r = Some x"
      "eid b = eid a"
    by (auto simp: referencing_def)
  from assms b(1,4) have "b = a"
    by (meson distinct_map inj_onD)
  with b show "Some x \<in> ref_oid ` set (field a)" by force
next
  assume "Some x \<in> ref_oid ` set (field a)"
  with assms(2) show "eid a \<in> set (referencing field acts x)"
    by (force simp: referencing_def)
qed

lemma distinct_actions:
  "distinct (map eid g) \<Longrightarrow> distinct (map eid (actions (build_indexes g)))"
  by (simp add: distinct_map_filter)

lemma chain_actions: "actions (build_indexes chain_graph) = [ent_a1, ent_a2]"
  by code_simp

lemma chain_distinct: "distinct (map eid chain_graph)"
  by code_simp

text \<open>
  C1 (as amended). For every non-empty id \<open>x\<close>, \<^verbatim>\<open>actions_by_result.get(x, [])\<close> is the
  list of the ids of the actions whose \<^verbatim>\<open>result\<close> list names \<open>x\<close> (inline or in a nested
  object), in the order in which the actions stand in the graph and once per reference,
  so that it may hold several actions; \<^verbatim>\<open>actions_by_input\<close> is the same for \<^verbatim>\<open>object\<close>.
  When the ids of the graph are unique, an action's id is in the list if and only if
  the action's list names \<open>x\<close>. The guard \<^verbatim>\<open>if oid:\<close> leaves the empty id out of both
  indexes.
\<close>

theorem index_holds_referencing_actions:
  assumes "x \<noteq> []"
  shows "dict_get_list (actions_by_result (build_indexes g)) x =
           referencing result (actions (build_indexes g)) x
       \<and> dict_get_list (actions_by_input (build_indexes g)) x =
           referencing object (actions (build_indexes g)) x
       \<and> (distinct (map eid g) \<and> a \<in> set (actions (build_indexes g)) \<longrightarrow>
            (eid a \<in> set (dict_get_list (actions_by_result (build_indexes g)) x)
               \<longleftrightarrow> Some x \<in> ref_oid ` set (result a))
          \<and> (eid a \<in> set (dict_get_list (actions_by_input (build_indexes g)) x)
               \<longleftrightarrow> Some x \<in> ref_oid ` set (object a)))"
  using assms
  by (simp only: actions_by_result_get actions_by_input_get if_False)
     (blast dest: mem_referencing[OF distinct_actions])

theorem index_holds_referencing_actions_witness:
  "dict_get_list (actions_by_input (build_indexes chain_graph)) ''#p1'' = [''#a1'', ''#a2'']
   \<and> dict_get_list (actions_by_result (build_indexes chain_graph)) ''#p1'' = []
   \<and> eid ent_a1 \<in> set (dict_get_list (actions_by_input (build_indexes chain_graph)) ''#p1'')
   \<and> Some ''#p1'' \<in> ref_oid ` set (object ent_a1)"
proof -
  have ne: "''#p1'' \<noteq> []" by simp
  have a: "ent_a1 \<in> set (actions (build_indexes chain_graph))"
    by (simp only: chain_actions) simp
  have r1: "referencing object [ent_a1, ent_a2] ''#p1'' = [''#a1'', ''#a2'']" by code_simp
  have r2: "referencing result [ent_a1, ent_a2] ''#p1'' = []" by code_simp
  have r3: "Some ''#p1'' \<in> ref_oid ` set (object ent_a1)" by code_simp
  note th = index_holds_referencing_actions[OF ne, of chain_graph ent_a1]
  from th have "dict_get_list (actions_by_input (build_indexes chain_graph)) ''#p1'' =
      referencing object (actions (build_indexes chain_graph)) ''#p1''"
    by blast
  then have i1: "dict_get_list (actions_by_input (build_indexes chain_graph)) ''#p1'' =
      [''#a1'', ''#a2'']"
    by (simp only: chain_actions r1)
  from th have "dict_get_list (actions_by_result (build_indexes chain_graph)) ''#p1'' =
      referencing result (actions (build_indexes chain_graph)) ''#p1''"
    by blast
  then have i2: "dict_get_list (actions_by_result (build_indexes chain_graph)) ''#p1'' = []"
    by (simp only: chain_actions r2)
  from th chain_distinct a r3
  have m: "eid ent_a1 \<in> set (dict_get_list (actions_by_input (build_indexes chain_graph)) ''#p1'')"
    by blast
  from i1 i2 m r3 show ?thesis by blast
qed

text \<open>
  C1 as stated fails at the empty id: \<open>ent_a0\<close> is an action of \<open>blank_graph\<close>, its
  \<^verbatim>\<open>result\<close> list names the id of \<open>ent_blank\<close>, and the index does not hold the action
  under that id.
\<close>

theorem empty_id_not_indexed:
  "ent_a0 \<in> set (actions (build_indexes blank_graph))
   \<and> eid ent_blank = []
   \<and> Some [] \<in> ref_oid ` set (result ent_a0)
   \<and> eid ent_a0 \<notin> set (dict_get_list (actions_by_result (build_indexes blank_graph)) [])"
  by code_simp

section \<open>Selector resolution\<close>

lemma update_fresh: "k \<notin> fst ` set al \<Longrightarrow> AList.update k v al = al @ [(k, v)]"
  by (induction al) auto

lemma foldl_update_distinct:
  "distinct (map eid g) \<Longrightarrow> eid ` set g \<inter> fst ` set m = {} \<Longrightarrow>
   foldl (\<lambda>m e. AList.update (eid e) e m) m g = m @ map (\<lambda>e. (eid e, e)) g"
proof (induction g arbitrary: m)
  case Nil
  then show ?case by simp
next
  case (Cons a g)
  have fresh: "eid a \<notin> fst ` set m" using Cons.prems(2) by auto
  have "eid ` set g \<inter> fst ` set (m @ [(eid a, a)]) = {}"
    using Cons.prems by auto
  with Cons.IH[of "m @ [(eid a, a)]"] Cons.prems(1) fresh
  show ?case by (simp add: update_fresh)
qed

lemma by_id_distinct:
  "distinct (map eid g) \<Longrightarrow> by_id (build_indexes g) = map (\<lambda>e. (eid e, e)) g"
  using foldl_update_distinct[of g "[]"] by (simp add: build_indexes_def Let_def)

lemma filter_id_absent:
  "k \<notin> eid ` set g \<Longrightarrow> filter (\<lambda>e'. eid e' = k \<and> P e') g = []"
  by (induction g) auto

lemma map_of_absent:
  "k \<notin> eid ` set g \<Longrightarrow> map_of (map (\<lambda>e. (eid e, e)) g) k = None"
  by (induction g) auto

lemma map_of_by_id_distinct:
  "distinct (map eid g) \<Longrightarrow> e \<in> set g \<Longrightarrow> map_of (map (\<lambda>e. (eid e, e)) g) (eid e) = Some e"
  by (induction g) (auto simp: image_iff)

lemma filter_id_distinct:
  "distinct (map eid g) \<Longrightarrow> e \<in> set g \<Longrightarrow>
   filter (\<lambda>e'. eid e' = eid e \<and> P e') g = (if P e then [e] else [])"
proof (induction g)
  case Nil
  then show ?case by simp
next
  case (Cons a g)
  show ?case
  proof (cases "a = e")
    case True
    then have "eid e \<notin> eid ` set g" using Cons.prems(1) by auto
    then show ?thesis using True by (simp add: filter_id_absent)
  next
    case False
    then have "e \<in> set g" using Cons.prems(2) by simp
    moreover have "eid a \<noteq> eid e" using Cons.prems(1) \<open>e \<in> set g\<close> by auto
    ultimately show ?thesis using Cons by simp
  qed
qed

lemma by_id_match_eq:
  assumes "distinct (map eid g)"
  shows "by_id_match g sel =
     (case map_of (map (\<lambda>e. (eid e, e)) g) sel of
        None \<Rightarrow> [] | Some ent \<Rightarrow> if has_type ent ''File'' then [ent] else [])"
proof (cases "sel \<in> eid ` set g")
  case False
  then show ?thesis by (simp add: by_id_match_def filter_id_absent map_of_absent)
next
  case True
  then obtain ent where ent: "ent \<in> set g" "eid ent = sel" by auto
  have "map_of (map (\<lambda>e. (eid e, e)) g) sel = Some ent"
    using map_of_by_id_distinct[OF assms ent(1)] ent(2) by simp
  moreover have "by_id_match g sel = (if has_type ent ''File'' then [ent] else [])"
    using filter_id_distinct[OF assms ent(1), of "\<lambda>e. has_type e ''File''"] ent(2)
    by (simp add: by_id_match_def)
  ultimately show ?thesis by simp
qed

lemma exact_name_eq:
  "(py_get e ''alternateName'' = JStr sel) = (display_name e = Some sel)"
  by (auto simp: py_get_def display_name_def split: option.splits json.splits)

lemma name_part_eq:
  "(case py_get_default e ''alternateName'' (JStr []) of JStr alt \<Rightarrow> sublist sel alt | _ \<Rightarrow> False)
   = (case display_name_or_empty e of Some n \<Rightarrow> sublist sel n | None \<Rightarrow> False)"
  by (auto simp: py_get_default_def display_name_or_empty_def split: option.splits json.splits)

text \<open>
  C3 (as amended). On a graph with unique ids, \<^verbatim>\<open>get_file_entities\<close> is the first
  non-empty one of three results: the \<^verbatim>\<open>File\<close> entity whose id is the selector (at most
  one); the \<^verbatim>\<open>File\<close> entities whose display name equals the selector, in graph order;
  the \<^verbatim>\<open>File\<close> entities whose display name, read as the empty string when the
  attribute is missing, contains the selector, in graph order. In particular a
  \<^verbatim>\<open>File\<close> whose id is the selector is returned alone, whatever the names of the others.
\<close>

theorem get_file_entities_rules:
  assumes "distinct (map eid g)"
  shows "get_file_entities (build_indexes g) sel = resolve_spec g sel
       \<and> length (by_id_match g sel) \<le> 1
       \<and> (e \<in> set g \<and> eid e = sel \<and> has_type e ''File'' \<longrightarrow>
            get_file_entities (build_indexes g) sel = [e])"
proof -
  have vals: "map snd (by_id (build_indexes g)) = g"
    by (simp add: by_id_distinct[OF assms] comp_def)
  have 1: "get_file_entities (build_indexes g) sel = resolve_spec g sel"
  proof (cases "map_of (map (\<lambda>e. (eid e, e)) g) sel")
    case None
    then show ?thesis
      unfolding get_file_entities_def resolve_spec_def find_files_by_altname_def Let_def vals
      by (simp add: by_id_distinct[OF assms] by_id_match_eq[OF assms]
            exact_name_eq name_part_eq by_exact_name_def by_name_part_def)
  next
    case (Some ent)
    then show ?thesis
      unfolding get_file_entities_def resolve_spec_def find_files_by_altname_def Let_def vals
      by (simp add: by_id_distinct[OF assms] by_id_match_eq[OF assms]
            exact_name_eq name_part_eq by_exact_name_def by_name_part_def)
  qed
  have 2: "length (by_id_match g sel) \<le> 1"
    by (simp add: by_id_match_eq[OF assms] split: option.splits)
  have 3: "get_file_entities (build_indexes g) sel = [e]"
    if "e \<in> set g" "eid e = sel" "has_type e ''File''"
  proof -
    have "by_id_match g sel = [e]"
      using filter_id_distinct[OF assms that(1), of "\<lambda>e. has_type e ''File''"] that
      by (auto simp: by_id_match_def)
    then show ?thesis using 1 by (simp add: resolve_spec_def)
  qed
  from 1 2 3 show ?thesis by blast
qed

theorem get_file_entities_rules_witness:
  "distinct (map eid [ent_f1, ent_f2])
   \<and> display_name ent_f2 = Some ''f1''
   \<and> get_file_entities (build_indexes [ent_f1, ent_f2]) ''f1'' = [ent_f1]"
proof -
  have d: "distinct (map eid [ent_f1, ent_f2])" by code_simp
  have n: "display_name ent_f2 = Some ''f1''" by code_simp
  have m: "ent_f1 \<in> set [ent_f1, ent_f2] \<and> eid ent_f1 = ''f1'' \<and> has_type ent_f1 ''File''"
    by code_simp
  from get_file_entities_rules[OF d, of "''f1''" ent_f1] m
  have "get_file_entities (build_indexes [ent_f1, ent_f2]) ''f1'' = [ent_f1]" by blast
  with d n show ?thesis by blast
qed

text \<open>
  C3 as stated fails at the empty selector: no rule of the claim selects the file
  without a display name, and the code returns it.
\<close>

theorem unnamed_file_matches_empty_selector:
  "by_id_match [ent_unnamed] [] = []
   \<and> by_exact_name [ent_unnamed] [] = []
   \<and> by_name_part_strict [ent_unnamed] [] = []
   \<and> get_file_entities (build_indexes [ent_unnamed]) [] = [ent_unnamed]"
  by code_simp

section \<open>The id map\<close>

lemma foldl_update_sound:
  "map_of (foldl (\<lambda>m e. AList.update (eid e) e m) m g) k = Some e \<Longrightarrow>
   (e \<in> set g \<and> eid e = k) \<or> map_of m k = Some e"
proof (induction g arbitrary: m)
  case Nil
  then show ?case by simp
next
  case (Cons a g)
  from Cons.IH[of "AList.update (eid a) a m"] Cons.prems
  show ?case by (auto simp: update_conv' split: if_splits)
qed

lemma by_id_sound:
  "map_of (by_id (build_indexes g)) k = Some e \<Longrightarrow> e \<in> set g \<and> eid e = k"
  using foldl_update_sound[of "[]" g k e] by (simp add: build_indexes_def Let_def)

lemma foldl_update_dom:
  "fst ` set (foldl (\<lambda>m e. AList.update (eid e) e m) m g) = fst ` set m \<union> eid ` set g"
  by (induction g arbitrary: m) (auto simp: dom_update)

lemma by_id_dom: "fst ` set (by_id (build_indexes g)) = eid ` set g"
  using foldl_update_dom[of "[]" g] by (simp add: build_indexes_def Let_def)

lemma by_id_complete:
  "k \<in> eid ` set g \<Longrightarrow> \<exists>e. map_of (by_id (build_indexes g)) k = Some e"
  using by_id_dom[of g] map_of_eq_None_iff[of "by_id (build_indexes g)" k] by auto

lemma foldl_update_distinct_keys:
  "distinct (map fst m) \<Longrightarrow> distinct (map fst (foldl (\<lambda>m e. AList.update (eid e) e m) m g))"
  by (induction g arbitrary: m) (simp_all add: distinct_update)

lemma by_id_distinct_keys: "distinct (map fst (by_id (build_indexes g)))"
  using foldl_update_distinct_keys[of "[]" g] by (simp add: build_indexes_def Let_def)

lemma by_id_values: "e \<in> snd ` set (by_id (build_indexes g)) \<Longrightarrow> e \<in> set g"
proof -
  assume "e \<in> snd ` set (by_id (build_indexes g))"
  then obtain k where "(k, e) \<in> set (by_id (build_indexes g))" by auto
  then have "map_of (by_id (build_indexes g)) k = Some e"
    using by_id_distinct_keys by (simp add: map_of_eq_Some_iff)
  then show ?thesis using by_id_sound by blast
qed

lemma set_referencing: "set (referencing field acts x) \<subseteq> eid ` set acts"
  by (auto simp: referencing_def)

lemma producers_in_graph:
  "set (dict_get_list (actions_by_result (build_indexes g)) x) \<subseteq> eid ` set g"
  using set_referencing[of result "actions (build_indexes g)" x]
  by (auto simp: actions_by_result_get)

lemma consumers_in_graph:
  "set (dict_get_list (actions_by_input (build_indexes g)) x) \<subseteq> eid ` set g"
  using set_referencing[of object "actions (build_indexes g)" x]
  by (auto simp: actions_by_input_get)

section \<open>Input partitioning\<close>

lemma bucket_of_simps:
  "bucket_of e = Artifact \<longleftrightarrow> has_type e ''File''"
  "bucket_of e = Container \<longleftrightarrow> \<not> has_type e ''File'' \<and> has_type e ''Dataset''"
  "bucket_of e = Parameter \<longleftrightarrow>
     \<not> has_type e ''File'' \<and> \<not> has_type e ''Dataset'' \<and> has_type e ''PropertyValue''"
  "bucket_of e = Other \<longleftrightarrow>
     \<not> has_type e ''File'' \<and> \<not> has_type e ''Dataset'' \<and> \<not> has_type e ''PropertyValue''"
  by (simp_all add: bucket_of_def)

lemma resolved_Nil [simp]: "resolved c [] = []"
  by (simp add: resolved_def map_filter_simps)

lemma resolved_Cons:
  "resolved c (obj # objs) =
     (case by_id_get c (ref_oid obj) of None \<Rightarrow> resolved c objs | Some e \<Rightarrow> e # resolved c objs)"
  by (cases "by_id_get c (ref_oid obj)") (simp_all add: resolved_def map_filter_simps)

lemma bucket_input_fields:
  "in_files (bucket_input c inp obj) =
     in_files inp @ map summarise_file (filter (\<lambda>e. bucket_of e = Artifact) (resolved c [obj]))"
  "in_datasets (bucket_input c inp obj) =
     in_datasets inp @
     map summarise_dataset (filter (\<lambda>e. bucket_of e = Container) (resolved c [obj]))"
  "in_parameters (bucket_input c inp obj) =
     in_parameters inp @
     map summarise_param (filter (\<lambda>e. bucket_of e = Parameter) (resolved c [obj]))"
  "in_other (bucket_input c inp obj) =
     in_other inp @ map summarise_other (filter (\<lambda>e. bucket_of e = Other) (resolved c [obj]))"
  by (cases "by_id_get c (ref_oid obj)";
      simp add: bucket_input_def resolved_Cons bucket_of_simps)+

lemma resolved_Cons_append: "resolved c (obj # objs) = resolved c [obj] @ resolved c objs"
  by (cases "by_id_get c (ref_oid obj)") (simp_all add: resolved_Cons)

lemma foldl_bucket_files:
  "in_files (foldl (bucket_input c) inp objs) =
     in_files inp @ map summarise_file (filter (\<lambda>e. bucket_of e = Artifact) (resolved c objs))"
proof (induction objs arbitrary: inp)
  case Nil
  then show ?case by simp
next
  case (Cons obj objs)
  show ?case
    by (simp only: foldl_Cons Cons.IH bucket_input_fields resolved_Cons_append[of c obj objs]
          filter_append map_append append_assoc)
qed

lemma foldl_bucket_datasets:
  "in_datasets (foldl (bucket_input c) inp objs) =
     in_datasets inp @
     map summarise_dataset (filter (\<lambda>e. bucket_of e = Container) (resolved c objs))"
proof (induction objs arbitrary: inp)
  case Nil
  then show ?case by simp
next
  case (Cons obj objs)
  show ?case
    by (simp only: foldl_Cons Cons.IH bucket_input_fields resolved_Cons_append[of c obj objs]
          filter_append map_append append_assoc)
qed

lemma foldl_bucket_parameters:
  "in_parameters (foldl (bucket_input c) inp objs) =
     in_parameters inp @
     map summarise_param (filter (\<lambda>e. bucket_of e = Parameter) (resolved c objs))"
proof (induction objs arbitrary: inp)
  case Nil
  then show ?case by simp
next
  case (Cons obj objs)
  show ?case
    by (simp only: foldl_Cons Cons.IH bucket_input_fields resolved_Cons_append[of c obj objs]
          filter_append map_append append_assoc)
qed

lemma foldl_bucket_other:
  "in_other (foldl (bucket_input c) inp objs) =
     in_other inp @ map summarise_other (filter (\<lambda>e. bucket_of e = Other) (resolved c objs))"
proof (induction objs arbitrary: inp)
  case Nil
  then show ?case by simp
next
  case (Cons obj objs)
  show ?case
    by (simp only: foldl_Cons Cons.IH bucket_input_fields resolved_Cons_append[of c obj objs]
          filter_append map_append append_assoc)
qed

lemma partition_inputs_fields:
  "in_files (partition_inputs c objs) =
     map summarise_file (filter (\<lambda>e. bucket_of e = Artifact) (resolved c objs))"
  "in_datasets (partition_inputs c objs) =
     map summarise_dataset (filter (\<lambda>e. bucket_of e = Container) (resolved c objs))"
  "in_parameters (partition_inputs c objs) =
     map summarise_param (filter (\<lambda>e. bucket_of e = Parameter) (resolved c objs))"
  "in_other (partition_inputs c objs) =
     map summarise_other (filter (\<lambda>e. bucket_of e = Other) (resolved c objs))"
  by (simp_all add: partition_inputs_def empty_inputs_def foldl_bucket_files
        foldl_bucket_datasets foldl_bucket_parameters foldl_bucket_other)

section \<open>Direct lineage\<close>

lemma site_ids_eq:
  "map ps_value (filter (\<lambda>p. ps_name p = JStr ''site_id'')
      (in_parameters (partition_inputs c objs))) =
   map (\<lambda>p. py_get p ''value'')
     (filter (\<lambda>p. bucket_of p = Parameter \<and> py_get p ''name'' = JStr ''site_id'')
        (resolved c objs))"
proof -
  have "ps_name (summarise_param p) = py_get p ''name''" for p
    by (simp add: summarise_param_def)
  moreover have "ps_value (summarise_param p) = py_get p ''value''" for p
    by (simp add: summarise_param_def)
  ultimately show ?thesis
    by (simp add: partition_inputs_fields filter_map comp_def)
qed

lemma tool_of_eq: "summarise_tool (resolve_tool c act) = tool_of c act"
  by (simp add: summarise_tool_def resolve_tool_def tool_of_def Let_def
        split: option.splits)

lemma input_buckets_eq: "partition_inputs c (object act) = input_buckets c act"
  unfolding input_buckets_def
  by (rule inputs.equality) (simp_all add: partition_inputs_fields)

lemma lineage_for_action_eq:
  "map_of (by_id c) act_id = Some act \<Longrightarrow>
   lineage_for_action c f act_id = Inr (lineage_record c f act)"
  by (simp add: lineage_for_action_def lineage_record_def Let_def site_ids_eq site_ids_of_def
        tool_of_eq input_buckets_eq[symmetric])

lemma lineage_producers_eq:
  "\<forall>a \<in> set ps. map_of (by_id c) a \<noteq> None \<Longrightarrow>
   lineage_producers c f results ps =
     Inr (results @ concat (map (\<lambda>act_id. case map_of (by_id c) act_id of
                                       None \<Rightarrow> []
                                     | Some act \<Rightarrow> [lineage_record c f act]) ps))"
proof (induction ps arbitrary: results)
  case Nil
  then show ?case by simp
next
  case (Cons a ps)
  then obtain act where "map_of (by_id c) a = Some act" by auto
  then show ?case using Cons by (simp add: lineage_for_action_eq)
qed

lemma lineage_files_eq:
  "\<forall>x. \<forall>a \<in> set (dict_get_list (actions_by_result c) x). map_of (by_id c) a \<noteq> None \<Longrightarrow>
   lineage_files c results fs = Inr (results @ concat (map (lineage_records c) fs))"
proof (induction fs arbitrary: results)
  case Nil
  then show ?case by simp
next
  case (Cons f fs)
  show ?case
  proof (cases "dict_get_list (actions_by_result c) (eid f) = []")
    case True
    then show ?thesis using Cons by (simp add: lineage_records_def no_producer_def)
  next
    case False
    have "\<forall>a \<in> set (dict_get_list (actions_by_result c) (eid f)). map_of (by_id c) a \<noteq> None"
      using Cons.prems by blast
    from lineage_producers_eq[OF this] False Cons show ?thesis
      by (simp add: lineage_records_def Let_def)
  qed
qed

lemma producers_resolve:
  "a \<in> set (dict_get_list (actions_by_result (build_indexes g)) x) \<Longrightarrow>
   map_of (by_id (build_indexes g)) a \<noteq> None"
  using producers_in_graph[of g x] by_id_complete[of a g] by auto

lemma consumers_resolve:
  "a \<in> set (dict_get_list (actions_by_input (build_indexes g)) x) \<Longrightarrow>
   map_of (by_id (build_indexes g)) a \<noteq> None"
  using consumers_in_graph[of g x] by_id_complete[of a g] by auto

lemma length_lineage_records:
  "length (lineage_records (build_indexes g) f) =
     (if dict_get_list (actions_by_result (build_indexes g)) (eid f) = [] then 1
      else length (dict_get_list (actions_by_result (build_indexes g)) (eid f)))"
proof -
  have "\<forall>a \<in> set ps. map_of (by_id c) a \<noteq> None \<Longrightarrow>
     length (concat (map (\<lambda>act_id. case map_of (by_id c) act_id of
                                       None \<Rightarrow> []
                                     | Some act \<Rightarrow> [lineage_record c f act]) ps)) = length ps"
    for ps and c :: crate
    by (induction ps) auto
  note len = this
  have "\<forall>a \<in> set (dict_get_list (actions_by_result (build_indexes g)) (eid f)).
          map_of (by_id (build_indexes g)) a \<noteq> None"
    using producers_resolve by blast
  from len[OF this] show ?thesis by (simp add: lineage_records_def Let_def)
qed

text \<open>
  C4 (as amended). \<^verbatim>\<open>get_file_lineage\<close> raises nothing and returns, file by file in
  the order of the resolved files, the records of each file. The producers of a file
  are the entries that \<^verbatim>\<open>actions_by_result\<close> holds under its id: for a non-empty id,
  the ids of the actions whose \<^verbatim>\<open>result\<close> list names the file, in graph order and once
  per reference; for the empty id, none. A file without entry gets the single record
  with its summary, no \<^verbatim>\<open>produced_by\<close>, no site ids and the note; a file with \<open>n\<close>
  entries gets \<open>n\<close> records, the \<open>i\<close>-th one built from the action of the \<open>i\<close>-th entry:
  the file's summary, the action's summary, its tool, its inputs in four buckets, and
  as \<^verbatim>\<open>site_ids\<close> the values of its parameter inputs named \<^verbatim>\<open>site_id\<close>, in order.
\<close>

theorem lineage_one_record_per_index_entry:
  "get_file_lineage (build_indexes g) sel =
     Inr (concat (map (lineage_records (build_indexes g))
                    (get_file_entities (build_indexes g) sel)))
   \<and> dict_get_list (actions_by_result (build_indexes g)) (eid f) =
       (if eid f = [] then [] else referencing result (actions (build_indexes g)) (eid f))
   \<and> length (lineage_records (build_indexes g) f) =
       (if dict_get_list (actions_by_result (build_indexes g)) (eid f) = [] then 1
        else length (dict_get_list (actions_by_result (build_indexes g)) (eid f)))
   \<and> (dict_get_list (actions_by_result (build_indexes g)) (eid f) = [] \<longrightarrow>
        lineage_records (build_indexes g) f =
          [\<lparr> lin_file = summarise_file f,
             lin_produced_by = None,
             lin_site_ids = [],
             lin_note = Some ''No CreateAction found that lists this file in its result.'' \<rparr>])
   \<and> (i < length (dict_get_list (actions_by_result (build_indexes g)) (eid f)) \<longrightarrow>
        (\<exists>act. map_of (by_id (build_indexes g))
                 (dict_get_list (actions_by_result (build_indexes g)) (eid f) ! i) = Some act
             \<and> lineage_records (build_indexes g) f ! i =
                 \<lparr> lin_file = summarise_file f,
                   lin_produced_by =
                     Some \<lparr> pb_action = summarise_action act,
                            pb_tool = tool_of (build_indexes g) act,
                            pb_inputs = input_buckets (build_indexes g) act \<rparr>,
                   lin_site_ids = site_ids_of (build_indexes g) act,
                   lin_note = None \<rparr>))"
proof -
  let ?c = "build_indexes g"
  have 1: "get_file_lineage ?c sel = Inr (concat (map (lineage_records ?c) (get_file_entities ?c sel)))"
  proof -
    have "\<forall>x. \<forall>a \<in> set (dict_get_list (actions_by_result ?c) x). map_of (by_id ?c) a \<noteq> None"
      using producers_resolve by blast
    from lineage_files_eq[OF this, of "[]"] show ?thesis
      by (simp add: get_file_lineage_def)
  qed
  have 3: "dict_get_list (actions_by_result ?c) (eid f) = [] \<longrightarrow>
      lineage_records ?c f =
          [\<lparr> lin_file = summarise_file f,
             lin_produced_by = None,
             lin_site_ids = [],
             lin_note = Some ''No CreateAction found that lists this file in its result.'' \<rparr>]"
    by (simp add: lineage_records_def)
  have nth: "\<forall>a \<in> set ps. map_of (by_id c) a \<noteq> None \<Longrightarrow> i < length ps \<Longrightarrow>
     \<exists>act. map_of (by_id c) (ps ! i) = Some act \<and>
       concat (map (\<lambda>act_id. case map_of (by_id c) act_id of
                                       None \<Rightarrow> []
                                     | Some act \<Rightarrow> [lineage_record c f act]) ps) ! i
       = lineage_record c f act"
    for ps i and c :: crate
  proof (induction ps arbitrary: i)
    case Nil
    then show ?case by simp
  next
    case (Cons a ps)
    then obtain act where a: "map_of (by_id c) a = Some act" by auto
    show ?case
    proof (cases i)
      case 0
      then show ?thesis using a by simp
    next
      case (Suc j)
      then show ?thesis using Cons a by simp
    qed
  qed
  have 4: "i < length (dict_get_list (actions_by_result ?c) (eid f)) \<longrightarrow>
        (\<exists>act. map_of (by_id ?c) (dict_get_list (actions_by_result ?c) (eid f) ! i) = Some act
             \<and> lineage_records ?c f ! i =
                 \<lparr> lin_file = summarise_file f,
                   lin_produced_by =
                     Some \<lparr> pb_action = summarise_action act,
                            pb_tool = tool_of ?c act,
                            pb_inputs = input_buckets ?c act \<rparr>,
                   lin_site_ids = site_ids_of ?c act,
                   lin_note = None \<rparr>)"
  proof
    assume i: "i < length (dict_get_list (actions_by_result ?c) (eid f))"
    then have ne: "dict_get_list (actions_by_result ?c) (eid f) \<noteq> []" by auto
    have "\<forall>a \<in> set (dict_get_list (actions_by_result ?c) (eid f)). map_of (by_id ?c) a \<noteq> None"
      using producers_resolve by blast
    from nth[OF this i]
    show "\<exists>act. map_of (by_id ?c) (dict_get_list (actions_by_result ?c) (eid f) ! i) = Some act
             \<and> lineage_records ?c f ! i =
                 \<lparr> lin_file = summarise_file f,
                   lin_produced_by =
                     Some \<lparr> pb_action = summarise_action act,
                            pb_tool = tool_of ?c act,
                            pb_inputs = input_buckets ?c act \<rparr>,
                   lin_site_ids = site_ids_of ?c act,
                   lin_note = None \<rparr>"
      using ne by (simp add: lineage_records_def Let_def lineage_record_def)
  qed
  show ?thesis
    apply (intro conjI)
        apply (rule 1)
       apply (rule actions_by_result_get)
      apply (rule length_lineage_records)
     apply (rule 3)
    apply (rule 4)
    done
qed

lemma chain_lineage_raw:
  "lineage_records (build_indexes chain_graph) ent_raw =
     [\<lparr> lin_file =
          \<lparr> fs_id = ''raw.csv'', fs_name = JStr ''raw.csv'', fs_sha1 = JStr ''aa'',
            fs_encodingFormat = JNull, fs_exampleOfWork = JNull \<rparr>,
        lin_produced_by = None,
        lin_site_ids = [],
        lin_note = Some ''No CreateAction found that lists this file in its result.'' \<rparr>]"
  by code_simp

lemma chain_lineage_final:
  "lineage_records (build_indexes chain_graph) ent_final =
     [\<lparr> lin_file =
          \<lparr> fs_id = ''final.csv'', fs_name = JStr ''final.csv'', fs_sha1 = JStr ''cc'',
            fs_encodingFormat = JNull, fs_exampleOfWork = JNull \<rparr>,
        lin_produced_by =
          Some \<lparr> pb_action =
                   \<lparr> as_id = ''#a2'', as_name = JStr ''Generate final output'',
                     as_startTime = JNull, as_endTime = JNull \<rparr>,
                 pb_tool =
                   Some \<lparr> ts_id = ''#tool1'', ts_name = JStr ''process-tool'',
                          ts_type = JStr ''SoftwareApplication'',
                          ts_inputs = JArr [], ts_outputs = JArr [] \<rparr>,
                 pb_inputs =
                   \<lparr> in_files =
                       [\<lparr> fs_id = ''processed.csv'', fs_name = JStr ''processed.csv'',
                          fs_sha1 = JStr ''bb'', fs_encodingFormat = JNull,
                          fs_exampleOfWork = JNull \<rparr>],
                     in_datasets = [],
                     in_parameters =
                       [\<lparr> ps_id = ''#p1'', ps_name = JStr ''site_id'',
                          ps_value = JStr ''site001'', ps_exampleOfWork = JNull \<rparr>],
                     in_other = [] \<rparr> \<rparr>,
        lin_site_ids = [JStr ''site001''],
        lin_note = None \<rparr>]"
  by code_simp

lemma chain_entities_raw: "get_file_entities (build_indexes chain_graph) ''raw.csv'' = [ent_raw]"
  by code_simp

lemma chain_entities_final:
  "get_file_entities (build_indexes chain_graph) ''final.csv'' = [ent_final]"
  by code_simp

theorem lineage_one_record_per_index_entry_witness:
  "get_file_lineage (build_indexes chain_graph) ''raw.csv'' =
     Inr [\<lparr> lin_file =
               \<lparr> fs_id = ''raw.csv'', fs_name = JStr ''raw.csv'', fs_sha1 = JStr ''aa'',
                 fs_encodingFormat = JNull, fs_exampleOfWork = JNull \<rparr>,
             lin_produced_by = None,
             lin_site_ids = [],
             lin_note = Some ''No CreateAction found that lists this file in its result.'' \<rparr>]
   \<and> get_file_lineage (build_indexes chain_graph) ''final.csv'' =
     Inr [\<lparr> lin_file =
               \<lparr> fs_id = ''final.csv'', fs_name = JStr ''final.csv'', fs_sha1 = JStr ''cc'',
                 fs_encodingFormat = JNull, fs_exampleOfWork = JNull \<rparr>,
             lin_produced_by =
               Some \<lparr> pb_action =
                        \<lparr> as_id = ''#a2'', as_name = JStr ''Generate final output'',
                          as_startTime = JNull, as_endTime = JNull \<rparr>,
                      pb_tool =
                        Some \<lparr> ts_id = ''#tool1'', ts_name = JStr ''process-tool'',
                               ts_type = JStr ''SoftwareApplication'',
                               ts_inputs = JArr [], ts_outputs = JArr [] \<rparr>,
                      pb_inputs =
                        \<lparr> in_files =
                            [\<lparr> fs_id = ''processed.csv'', fs_name = JStr ''processed.csv'',
                               fs_sha1 = JStr ''bb'', fs_encodingFormat = JNull,
                               fs_exampleOfWork = JNull \<rparr>],
                          in_datasets = [],
                          in_parameters =
                            [\<lparr> ps_id = ''#p1'', ps_name = JStr ''site_id'',
                               ps_value = JStr ''site001'', ps_exampleOfWork = JNull \<rparr>],
                          in_other = [] \<rparr> \<rparr>,
             lin_site_ids = [JStr ''site001''],
             lin_note = None \<rparr>]"
proof -
  note raw = lineage_one_record_per_index_entry[of chain_graph "''raw.csv''" ent_raw 0,
      THEN conjunct1]
  note fin = lineage_one_record_per_index_entry[of chain_graph "''final.csv''" ent_final 0,
      THEN conjunct1]
  have r: "get_file_lineage (build_indexes chain_graph) ''raw.csv'' =
      Inr (lineage_records (build_indexes chain_graph) ent_raw)"
    using raw by (simp only: chain_entities_raw list.map concat.simps append_Nil2)
  have f: "get_file_lineage (build_indexes chain_graph) ''final.csv'' =
      Inr (lineage_records (build_indexes chain_graph) ent_final)"
    using fin by (simp only: chain_entities_final list.map concat.simps append_Nil2)
  show ?thesis
    by (rule conjI) (rule r[unfolded chain_lineage_raw], rule f[unfolded chain_lineage_final])
qed

text \<open>
  C4 as stated fails. In \<open>dup_graph\<close> the file has one producing action, which lists it
  twice, and the lineage has two records. In \<open>blank_graph\<close> the file with the empty id
  is listed as a result of the action \<open>ent_a0\<close>, and the lineage is the record without
  producer.
\<close>

lemma dup_actions: "actions (build_indexes dup_graph) = [ent_dup]"
  by code_simp

lemma dup_entities: "get_file_entities (build_indexes dup_graph) ''d.csv'' = [ent_dx]"
  by code_simp

lemma dup_lineage:
  "get_file_lineage (build_indexes dup_graph) ''d.csv'' =
     Inr [lineage_record (build_indexes dup_graph) ent_dx ent_dup,
          lineage_record (build_indexes dup_graph) ent_dx ent_dup]"
  by code_simp

lemma blank_entities: "get_file_entities (build_indexes blank_graph) [] = [ent_blank]"
  by code_simp

lemma blank_action: "ent_a0 \<in> set (actions (build_indexes blank_graph))"
  by code_simp

lemma blank_result: "Some [] \<in> ref_oid ` set (result ent_a0)"
  by code_simp

lemma blank_lineage:
  "get_file_lineage (build_indexes blank_graph) [] =
     Inr [\<lparr> lin_file =
               \<lparr> fs_id = [], fs_name = JNull, fs_sha1 = JNull,
                 fs_encodingFormat = JNull, fs_exampleOfWork = JNull \<rparr>,
             lin_produced_by = None,
             lin_site_ids = [],
             lin_note = Some ''No CreateAction found that lists this file in its result.'' \<rparr>]"
  by code_simp

theorem lineage_counts_index_entries:
  "actions (build_indexes dup_graph) = [ent_dup]
   \<and> get_file_entities (build_indexes dup_graph) ''d.csv'' = [ent_dx]
   \<and> get_file_lineage (build_indexes dup_graph) ''d.csv'' =
       Inr [lineage_record (build_indexes dup_graph) ent_dx ent_dup,
            lineage_record (build_indexes dup_graph) ent_dx ent_dup]
   \<and> get_file_entities (build_indexes blank_graph) [] = [ent_blank]
   \<and> ent_a0 \<in> set (actions (build_indexes blank_graph))
   \<and> Some [] \<in> ref_oid ` set (result ent_a0)
   \<and> get_file_lineage (build_indexes blank_graph) [] =
       Inr [\<lparr> lin_file =
                 \<lparr> fs_id = [], fs_name = JNull, fs_sha1 = JNull,
                   fs_encodingFormat = JNull, fs_exampleOfWork = JNull \<rparr>,
               lin_produced_by = None,
               lin_site_ids = [],
               lin_note = Some ''No CreateAction found that lists this file in its result.'' \<rparr>]"
  by (intro conjI)
     (rule dup_actions, rule dup_entities, rule dup_lineage, rule blank_entities,
      rule blank_action, rule blank_result, rule blank_lineage)

section \<open>No match\<close>

text \<open>
  C8. When the selector resolves to no entity (\<^verbatim>\<open>get_file_entities\<close> returns the empty
  list), \<^verbatim>\<open>get_file_lineage\<close> returns the empty list without raising, and
  \<^verbatim>\<open>get_file_ancestry\<close> and \<^verbatim>\<open>get_file_descendants\<close> return their all-empty
  structure, whatever the depth limit.
\<close>

theorem no_match_returns_empty:
  assumes "get_file_entities c sel = []"
  shows "get_file_lineage c sel = Inr []
       \<and> get_file_ancestry c sel max_depth = Some empty_subgraph
       \<and> get_file_descendants c sel max_depth = Some empty_descendants"
  using assms
  by (simp add: get_file_lineage_def get_file_ancestry_def get_file_descendants_def)

theorem no_match_returns_empty_witness:
  "get_file_entities (build_indexes chain_graph) ''nonexistent.csv'' = []
   \<and> get_file_lineage (build_indexes chain_graph) ''nonexistent.csv'' = Inr []
   \<and> get_file_ancestry (build_indexes chain_graph) ''nonexistent.csv'' None =
       Some \<lparr> res_root_files = [], res_entities = [], res_actions = [], res_edges = [] \<rparr>
   \<and> get_file_descendants (build_indexes chain_graph) ''nonexistent.csv'' (Some 2) =
       Some empty_descendants"
proof -
  have e: "get_file_entities (build_indexes chain_graph) ''nonexistent.csv'' = []"
    by code_simp
  from no_match_returns_empty[OF e] e show ?thesis
    by (simp add: empty_subgraph_def)
qed

section \<open>Step runs of a site\<close>

lemma site_tagged_eq:
  "site_tagged c sid objs = list_ex (site_param sid) (resolved c objs)"
  by (induction objs)
     (auto simp: resolved_Cons site_param_def split: option.splits)

lemma foldl_site_ids:
  "foldl (\<lambda>ids act. if P act then insert (eid act) ids else ids) S acts =
     S \<union> eid ` {a \<in> set acts. P a}"
  by (induction acts arbitrary: S) auto

lemma site_action_ids_eq:
  "site_action_ids c sid = set (map eid (filter (qualifies c sid) (actions c)))"
  by (simp add: site_action_ids_def foldl_site_ids site_tagged_eq qualifies_def)

lemma step_runs_of_ids:
  "set ids \<subseteq> eid ` set g \<Longrightarrow>
   \<exists>runs. step_runs_of (build_indexes g) ids = Inr runs \<and> run_ids runs = ids"
proof (induction ids)
  case Nil
  then show ?case by (simp add: run_ids_def)
next
  case (Cons aid ids)
  then obtain runs where runs: "step_runs_of (build_indexes g) ids = Inr runs" "run_ids runs = ids"
    by auto
  from Cons.prems obtain act where act: "map_of (by_id (build_indexes g)) aid = Some act"
    using by_id_complete[of aid g] by auto
  then have "eid act = aid" using by_id_sound by blast
  with runs act show ?case
    by (simp add: run_ids_def summarise_run_def summarise_action_def)
qed

text \<open>
  C10. \<^verbatim>\<open>step_runs\<close> is computed without raising; the action ids of its records are
  the ids of the qualifying actions sorted as strings and without repetition, whatever
  the order of the graph and however many matching parameters an action has; with
  unique ids there are as many records as qualifying actions.
\<close>

theorem step_runs_sorted_once:
  "\<exists>runs. site_step_runs (build_indexes g) sid = Inr runs
     \<and> run_ids runs =
         sorted_list_of_set
           (set (map eid (filter (qualifies (build_indexes g) sid) (actions (build_indexes g)))))
     \<and> sorted_wrt (<) (run_ids runs)
     \<and> (distinct (map eid g) \<longrightarrow>
          length runs =
            length (filter (qualifies (build_indexes g) sid) (actions (build_indexes g))))"
proof -
  let ?c = "build_indexes g"
  let ?Q = "set (map eid (filter (qualifies ?c sid) (actions ?c)))"
  have fin: "finite ?Q" by simp
  have sub: "set (sorted_list_of_set ?Q) \<subseteq> eid ` set g"
    using fin by auto
  from step_runs_of_ids[OF sub] obtain runs where
    runs: "step_runs_of ?c (sorted_list_of_set ?Q) = Inr runs"
      "run_ids runs = sorted_list_of_set ?Q"
    by blast
  have 1: "site_step_runs ?c sid = Inr runs"
    using runs(1) by (simp only: site_step_runs_def site_action_ids_eq)
  have 3: "sorted_wrt (<) (run_ids runs)"
    using runs(2) by (simp only: sorted_list_of_set.strict_sorted_key_list_of_set)
  have 4: "length runs = length (filter (qualifies ?c sid) (actions ?c))"
    if d: "distinct (map eid g)"
  proof -
    have "distinct (map eid (filter (qualifies ?c sid) (actions ?c)))"
      using distinct_actions[OF d] by (rule distinct_map_filter)
    then have "card ?Q = length (filter (qualifies ?c sid) (actions ?c))"
      using distinct_card[of "map eid (filter (qualifies ?c sid) (actions ?c))"]
      by (simp only: length_map)
    moreover have "length (run_ids runs) = card ?Q"
      using runs(2) by (simp only: sorted_list_of_set.length_sorted_key_list_of_set)
    ultimately show ?thesis by (simp add: run_ids_def)
  qed
  from 1 runs(2) 3 4 show ?thesis by blast
qed


theorem step_runs_sorted_once_witness:
  "distinct (map eid site_graph)
   \<and> filter (qualifies (build_indexes site_graph) ''site001'')
        (actions (build_indexes site_graph)) = [ent_run_b, ent_run_a]
   \<and> (\<exists>runs. site_step_runs (build_indexes site_graph) ''site001'' = Inr runs
         \<and> run_ids runs = [''#a'', ''#b''] \<and> length runs = 2)"
proof -
  let ?c = "build_indexes site_graph"
  have d: "distinct (map eid site_graph)" by code_simp
  have f: "filter (qualifies ?c ''site001'') (actions ?c) = [ent_run_b, ent_run_a]"
    by code_simp
  have s: "sorted_list_of_set (set (map eid [ent_run_b, ent_run_a])) = [''#a'', ''#b'']"
    by code_simp
  from step_runs_sorted_once[of site_graph "''site001''"] obtain runs where
    r: "site_step_runs ?c ''site001'' = Inr runs"
       "run_ids runs =
          sorted_list_of_set (set (map eid (filter (qualifies ?c ''site001'') (actions ?c))))"
       "distinct (map eid site_graph) \<longrightarrow>
          length runs = length (filter (qualifies ?c ''site001'') (actions ?c))"
    by blast
  from r(2) have "run_ids runs = [''#a'', ''#b'']" by (simp only: f s)
  moreover from r(3) d have "length runs = 2" by (simp only: f) simp
  ultimately show ?thesis using d f r(1) by blast
qed

section \<open>The walks\<close>

lemma foldl_anc_input:
  "foldl (anc_input md a d) s xs =
     s\<lparr> edges := edges s @ map (used_edge a) xs,
        queue := queue s @ (if within_depth md d then map (\<lambda>x. (x, d + 1)) xs else []) \<rparr>"
  by (induction xs arbitrary: s) (simp_all add: anc_input_def Let_def used_edge_def)

lemma anc_action_eq:
  "anc_action c md x d s a =
     (case map_of (by_id c) a of
        None \<Rightarrow> s
      | Some act \<Rightarrow>
          if a \<in> visited_actions s then s\<lparr> edges := edges s @ [generated_edge a x] \<rparr>
          else s\<lparr> visited_actions := insert a (visited_actions s),
                  action_nodes :=
                    AList.update a
                      \<lparr> an_action = summarise_action act,
                        an_tool = summarise_tool (resolve_tool c act),
                        an_inputs = partition_inputs c (object act),
                        an_outputs = None \<rparr>
                      (action_nodes s),
                  edges := edges s @ generated_edge a x # map (used_edge a) (data_inputs c act),
                  queue := queue s @
                    (if within_depth md d then map (\<lambda>i. (i, d + 1)) (data_inputs c act)
                     else []) \<rparr>)"
  by (cases "map_of (by_id c) a")
     (simp_all add: anc_action_def Let_def foldl_anc_input generated_edge_def data_inputs_def
        partition_inputs_fields summarise_file_def summarise_dataset_def comp_def)

lemma desc_output_eq:
  "desc_output c md a d (s, outs) res =
     (s\<lparr> edges := edges s @ map (generated_edge a) (data_outputs c [res]),
         queue := queue s @
           (if within_depth md d then map (\<lambda>i. (i, d + 1)) (data_outputs c [res]) else []) \<rparr>,
      add_outputs outs (partition_outputs c [res]))"
proof (cases "by_id_get c (ref_oid res)")
  case None
  then show ?thesis
    by (simp add: desc_output_def data_outputs_def partition_outputs_def add_outputs_def
          resolved_Cons)
next
  case (Some e)
  then show ?thesis
    by (simp add: desc_output_def data_outputs_def partition_outputs_def add_outputs_def
          resolved_Cons Let_def is_data_def bucket_of_simps generated_edge_def)
qed

lemma data_outputs_Cons: "data_outputs c (r # rs) = data_outputs c [r] @ data_outputs c rs"
  by (simp add: data_outputs_def resolved_Cons_append[of c r rs])

lemma partition_outputs_Cons:
  "partition_outputs c (r # rs) = add_outputs (partition_outputs c [r]) (partition_outputs c rs)"
  by (simp add: partition_outputs_def add_outputs_def resolved_Cons_append[of c r rs])

lemma add_outputs_assoc: "add_outputs (add_outputs p q) r = add_outputs p (add_outputs q r)"
  by (simp add: add_outputs_def)

lemma add_outputs_empty [simp]: "add_outputs p (partition_outputs c []) = p"
  by (simp add: add_outputs_def partition_outputs_def)

lemma add_empty_outputs [simp]: "add_outputs empty_outputs p = p"
  by (simp add: add_outputs_def empty_outputs_def)

lemma foldl_desc_output:
  "foldl (desc_output c md a d) (s, outs) ress =
     (s\<lparr> edges := edges s @ map (generated_edge a) (data_outputs c ress),
         queue := queue s @
           (if within_depth md d then map (\<lambda>i. (i, d + 1)) (data_outputs c ress) else []) \<rparr>,
      add_outputs outs (partition_outputs c ress))"
proof (induction ress arbitrary: s outs)
  case Nil
  then show ?case by (simp add: data_outputs_def)
next
  case (Cons r rs)
  show ?case
    by (simp add: desc_output_eq Cons.IH data_outputs_Cons[of c r rs]
          partition_outputs_Cons[of c r rs] add_outputs_assoc)
qed

lemma desc_action_eq:
  "desc_action c md x d s a =
     (case map_of (by_id c) a of
        None \<Rightarrow> s
      | Some act \<Rightarrow>
          if a \<in> visited_actions s then s\<lparr> edges := edges s @ [used_edge a x] \<rparr>
          else s\<lparr> visited_actions := insert a (visited_actions s),
                  action_nodes :=
                    AList.update a
                      \<lparr> an_action = summarise_action act,
                        an_tool = summarise_tool (resolve_tool c act),
                        an_inputs = partition_inputs c (object act),
                        an_outputs = Some (partition_outputs c (result act)) \<rparr>
                      (action_nodes s),
                  edges := edges s @
                    used_edge a x # map (generated_edge a) (data_outputs c (result act)),
                  queue := queue s @
                    (if within_depth md d
                     then map (\<lambda>i. (i, d + 1)) (data_outputs c (result act))
                     else []) \<rparr>)"
  by (cases "map_of (by_id c) a")
     (simp_all add: desc_action_def Let_def foldl_desc_output used_edge_def)

lemma resolved_known: "set (resolved c refs) \<subseteq> snd ` set (by_id c)"
proof (induction refs)
  case Nil
  then show ?case by simp
next
  case (Cons r refs)
  show ?case
  proof (cases "by_id_get c (ref_oid r)")
    case None
    then show ?thesis using Cons by (simp add: resolved_Cons)
  next
    case (Some e)
    then have "(the (ref_oid r), e) \<in> set (by_id c)"
      by (cases "ref_oid r") (auto simp: by_id_get_def dest: map_of_SomeD)
    then have "e \<in> snd ` set (by_id c)" by force
    then show ?thesis using Cons Some by (simp add: resolved_Cons)
  qed
qed

lemma data_inputs_known: "set (data_inputs c act) \<subseteq> known_ids c"
  using resolved_known[of c "object act"] by (auto simp: data_inputs_def known_ids_def)

lemma data_outputs_known: "set (data_outputs c ress) \<subseteq> known_ids c"
  using resolved_known[of c ress] by (auto simp: data_outputs_def known_ids_def)

lemma anc_visit_cases:
  "anc_visit c md s (x, d) =
     (if x \<in> visited_entities s then s
      else case map_of (by_id c) x of
             None \<Rightarrow> s\<lparr> visited_entities := insert x (visited_entities s) \<rparr>
           | Some e \<Rightarrow>
               if is_data e then
                 foldl (anc_action c md x d)
                   (s\<lparr> visited_entities := insert x (visited_entities s),
                       entity_nodes := AList.update x (node_of e) (entity_nodes s) \<rparr>)
                   (dict_get_list (actions_by_result c) x)
               else s\<lparr> visited_entities := insert x (visited_entities s) \<rparr>)"
  by (cases "map_of (by_id c) x") (simp_all add: anc_visit_def Let_def is_data_def node_of_def)

lemma desc_visit_cases:
  "desc_visit c md s (x, d) =
     (if x \<in> visited_entities s then s
      else case map_of (by_id c) x of
             None \<Rightarrow> s\<lparr> visited_entities := insert x (visited_entities s) \<rparr>
           | Some e \<Rightarrow>
               if is_data e then
                 foldl (desc_action c md x d)
                   (s\<lparr> visited_entities := insert x (visited_entities s),
                       entity_nodes := AList.update x (node_of e) (entity_nodes s) \<rparr>)
                   (dict_get_list (actions_by_input c) x)
               else s\<lparr> visited_entities := insert x (visited_entities s) \<rparr>)"
  by (cases "map_of (by_id c) x") (simp_all add: desc_visit_def Let_def is_data_def node_of_def)

text \<open>What an action step leaves alone and what it appends to the queue.\<close>

lemma anc_action_frame:
  "visited_entities (anc_action c md x d s a) = visited_entities s"
  "entity_nodes (anc_action c md x d s a) = entity_nodes s"
  by (simp_all add: anc_action_eq split: option.splits)

lemma anc_action_queue:
  "\<exists>new. queue (anc_action c md x d s a) = queue s @ new \<and> fst ` set new \<subseteq> known_ids c
         \<and> (\<not> within_depth md d \<longrightarrow> new = [])"
  using data_inputs_known[of c]
  by (cases "map_of (by_id c) a") (auto simp: anc_action_eq image_comp comp_def subset_iff)

lemma foldl_anc_action_frame:
  "visited_entities (foldl (anc_action c md x d) s ps) = visited_entities s"
  "entity_nodes (foldl (anc_action c md x d) s ps) = entity_nodes s"
  by (induction ps arbitrary: s) (simp_all add: anc_action_frame)

lemma foldl_anc_action_queue:
  "\<exists>new. queue (foldl (anc_action c md x d) s ps) = queue s @ new
         \<and> fst ` set new \<subseteq> known_ids c \<and> (\<not> within_depth md d \<longrightarrow> new = [])"
proof (induction ps arbitrary: s)
  case Nil
  then show ?case by simp
next
  case (Cons a ps)
  from anc_action_queue[of c md x d s a] obtain n1 where
    n1: "queue (anc_action c md x d s a) = queue s @ n1" "fst ` set n1 \<subseteq> known_ids c"
      "\<not> within_depth md d \<longrightarrow> n1 = []"
    by blast
  from Cons[of "anc_action c md x d s a"] obtain n2 where
    n2: "queue (foldl (anc_action c md x d) (anc_action c md x d s a) ps) =
           queue (anc_action c md x d s a) @ n2" "fst ` set n2 \<subseteq> known_ids c"
      "\<not> within_depth md d \<longrightarrow> n2 = []"
    by blast
  have "queue (foldl (anc_action c md x d) s (a # ps)) = queue s @ (n1 @ n2)"
    using n1(1) n2(1) by simp
  moreover have "fst ` set (n1 @ n2) \<subseteq> known_ids c" using n1(2) n2(2) by auto
  moreover have "\<not> within_depth md d \<longrightarrow> n1 @ n2 = []" using n1(3) n2(3) by simp
  ultimately show ?case by blast
qed

lemma anc_visit_visited:
  "visited_entities (anc_visit c md s item) = insert (fst item) (visited_entities s)"
  by (cases item)
     (auto simp: anc_visit_cases foldl_anc_action_frame split: option.splits)

lemma anc_visit_queue:
  "\<exists>new. queue (anc_visit c md s item) = queue s @ new \<and> fst ` set new \<subseteq> known_ids c
         \<and> (\<not> within_depth md (snd item) \<longrightarrow> new = [])
         \<and> (fst item \<in> visited_entities s \<longrightarrow> new = [])"
proof (cases item)
  case (Pair x d)
  show ?thesis
  proof (cases "x \<notin> visited_entities s \<and> (\<exists>e. map_of (by_id c) x = Some e \<and> is_data e)")
    case True
    then obtain e where e: "map_of (by_id c) x = Some e" "is_data e" by blast
    from foldl_anc_action_queue[of c md x d
        "s\<lparr> visited_entities := insert x (visited_entities s),
            entity_nodes := AList.update x (node_of e) (entity_nodes s) \<rparr>"
        "dict_get_list (actions_by_result c) x"]
    show ?thesis using True e Pair by (simp add: anc_visit_cases)
  next
    case False
    then have "queue (anc_visit c md s item) = queue s"
      using Pair by (auto simp: anc_visit_cases split: option.splits)
    then show ?thesis by simp
  qed
qed

lemma desc_action_frame:
  "visited_entities (desc_action c md x d s a) = visited_entities s"
  "entity_nodes (desc_action c md x d s a) = entity_nodes s"
  by (simp_all add: desc_action_eq split: option.splits)

lemma desc_action_queue:
  "\<exists>new. queue (desc_action c md x d s a) = queue s @ new \<and> fst ` set new \<subseteq> known_ids c
         \<and> (\<not> within_depth md d \<longrightarrow> new = [])"
  using data_outputs_known[of c]
  by (cases "map_of (by_id c) a") (auto simp: desc_action_eq image_comp comp_def subset_iff)

lemma foldl_desc_action_frame:
  "visited_entities (foldl (desc_action c md x d) s ps) = visited_entities s"
  "entity_nodes (foldl (desc_action c md x d) s ps) = entity_nodes s"
  by (induction ps arbitrary: s) (simp_all add: desc_action_frame)

lemma foldl_desc_action_queue:
  "\<exists>new. queue (foldl (desc_action c md x d) s ps) = queue s @ new
         \<and> fst ` set new \<subseteq> known_ids c \<and> (\<not> within_depth md d \<longrightarrow> new = [])"
proof (induction ps arbitrary: s)
  case Nil
  then show ?case by simp
next
  case (Cons a ps)
  from desc_action_queue[of c md x d s a] obtain n1 where
    n1: "queue (desc_action c md x d s a) = queue s @ n1" "fst ` set n1 \<subseteq> known_ids c"
      "\<not> within_depth md d \<longrightarrow> n1 = []"
    by blast
  from Cons[of "desc_action c md x d s a"] obtain n2 where
    n2: "queue (foldl (desc_action c md x d) (desc_action c md x d s a) ps) =
           queue (desc_action c md x d s a) @ n2" "fst ` set n2 \<subseteq> known_ids c"
      "\<not> within_depth md d \<longrightarrow> n2 = []"
    by blast
  have "queue (foldl (desc_action c md x d) s (a # ps)) = queue s @ (n1 @ n2)"
    using n1(1) n2(1) by simp
  moreover have "fst ` set (n1 @ n2) \<subseteq> known_ids c" using n1(2) n2(2) by auto
  moreover have "\<not> within_depth md d \<longrightarrow> n1 @ n2 = []" using n1(3) n2(3) by simp
  ultimately show ?case by blast
qed

lemma desc_visit_visited:
  "visited_entities (desc_visit c md s item) = insert (fst item) (visited_entities s)"
  by (cases item)
     (auto simp: desc_visit_cases foldl_desc_action_frame split: option.splits)

lemma desc_visit_queue:
  "\<exists>new. queue (desc_visit c md s item) = queue s @ new \<and> fst ` set new \<subseteq> known_ids c
         \<and> (\<not> within_depth md (snd item) \<longrightarrow> new = [])
         \<and> (fst item \<in> visited_entities s \<longrightarrow> new = [])"
proof (cases item)
  case (Pair x d)
  show ?thesis
  proof (cases "x \<notin> visited_entities s \<and> (\<exists>e. map_of (by_id c) x = Some e \<and> is_data e)")
    case True
    then obtain e where e: "map_of (by_id c) x = Some e" "is_data e" by blast
    from foldl_desc_action_queue[of c md x d
        "s\<lparr> visited_entities := insert x (visited_entities s),
            entity_nodes := AList.update x (node_of e) (entity_nodes s) \<rparr>"
        "dict_get_list (actions_by_input c) x"]
    show ?thesis using True e Pair by (simp add: desc_visit_cases)
  next
    case False
    then have "queue (desc_visit c md s item) = queue s"
      using Pair by (auto simp: desc_visit_cases split: option.splits)
    then show ?thesis by simp
  qed
qed

lemma anc_step_Cons:
  "queue s = item # rest \<Longrightarrow> anc_step c md s = anc_visit c md (s\<lparr> queue := rest \<rparr>) item"
  by (simp add: anc_step_def)

lemma desc_step_Cons:
  "queue s = item # rest \<Longrightarrow> desc_step c md s = desc_visit c md (s\<lparr> queue := rest \<rparr>) item"
  by (simp add: desc_step_def)

lemma anc_step_bfs:
  assumes "queue s = item # rest"
  shows "visited_entities (anc_step c md s) = insert (fst item) (visited_entities s)
       \<and> fst ` set (queue (anc_step c md s)) \<subseteq> fst ` set rest \<union> known_ids c
       \<and> (fst item \<in> visited_entities s \<longrightarrow> queue (anc_step c md s) = rest)"
proof -
  from anc_visit_queue[of c md "s\<lparr> queue := rest \<rparr>" item] obtain new where
    n: "queue (anc_visit c md (s\<lparr> queue := rest \<rparr>) item) = rest @ new"
      "fst ` set new \<subseteq> known_ids c"
      "fst item \<in> visited_entities s \<longrightarrow> new = []"
    by auto
  have "fst ` set (rest @ new) \<subseteq> fst ` set rest \<union> known_ids c"
    using n(2) by (simp add: image_Un) blast
  then show ?thesis
    using n(1,3) by (simp add: anc_step_Cons[OF assms] anc_visit_visited)
qed

lemma desc_step_bfs:
  assumes "queue s = item # rest"
  shows "visited_entities (desc_step c md s) = insert (fst item) (visited_entities s)
       \<and> fst ` set (queue (desc_step c md s)) \<subseteq> fst ` set rest \<union> known_ids c
       \<and> (fst item \<in> visited_entities s \<longrightarrow> queue (desc_step c md s) = rest)"
proof -
  from desc_visit_queue[of c md "s\<lparr> queue := rest \<rparr>" item] obtain new where
    n: "queue (desc_visit c md (s\<lparr> queue := rest \<rparr>) item) = rest @ new"
      "fst ` set new \<subseteq> known_ids c"
      "fst item \<in> visited_entities s \<longrightarrow> new = []"
    by auto
  have "fst ` set (rest @ new) \<subseteq> fst ` set rest \<union> known_ids c"
    using n(2) by (simp add: image_Un) blast
  then show ?thesis
    using n(1,3) by (simp add: desc_step_Cons[OF assms] desc_visit_visited)
qed

text \<open>
  A loop over a queue ends when every round marks the entity it takes from the queue
  as visited, adds nothing for an entity already visited, and only ever adds ids of a
  finite set.
\<close>

lemma bfs_terminates:
  fixes step :: "walk \<Rightarrow> walk"
  assumes fin: "finite U"
    and step: "\<And>s item rest. queue s = item # rest \<Longrightarrow>
        visited_entities (step s) = insert (fst item) (visited_entities s)
        \<and> fst ` set (queue (step s)) \<subseteq> fst ` set rest \<union> U
        \<and> (fst item \<in> visited_entities s \<longrightarrow> queue (step s) = rest)"
  shows "\<exists>t. while_option (\<lambda>s. queue s \<noteq> []) step s = Some t"
proof (rule wf_rel_while_option_Some[where P = "\<lambda>_. True"
      and R = "inv_image (less_than <*lex*> less_than)
                 (\<lambda>s. (card ((U \<union> fst ` set (queue s)) - visited_entities s),
                       length (queue s)))"])
  show "wf (inv_image (less_than <*lex*> less_than)
                 (\<lambda>s. (card ((U \<union> fst ` set (queue s)) - visited_entities s),
                       length (queue s))))"
    by (intro wf_inv_image wf_lex_prod wf_less_than)
next
  fix s :: walk
  assume "True \<and> queue s \<noteq> []"
  then obtain item rest where q: "queue s = item # rest" by (cases "queue s") auto
  note st = step[OF q]
  let ?A = "(U \<union> fst ` set (queue s)) - visited_entities s"
  let ?B = "(U \<union> fst ` set (queue (step s))) - visited_entities (step s)"
  have finA: "finite ?A" using fin by simp
  show "(step s, s) \<in> inv_image (less_than <*lex*> less_than)
                 (\<lambda>s. (card ((U \<union> fst ` set (queue s)) - visited_entities s),
                       length (queue s)))"
  proof (cases "fst item \<in> visited_entities s")
    case True
    then have "queue (step s) = rest" using st by blast
    moreover have "?B \<subseteq> ?A" using st q by auto
    then have "card ?B \<le> card ?A" using finA by (rule card_mono[rotated])
    ultimately show ?thesis using q by (auto simp: le_less)
  next
    case False
    have "fst item \<in> ?A" using False q by simp
    moreover have "fst item \<notin> ?B" using st by simp
    moreover have "?B \<subseteq> ?A" using st q by auto
    ultimately have "?B \<subset> ?A" by blast
    then have "card ?B < card ?A" using finA by (rule psubset_card_mono[rotated])
    then show ?thesis by simp
  qed
qed simp_all

lemma finite_known_ids: "finite (known_ids c)"
  by (simp add: known_ids_def)

lemma anc_loop_terminates: "\<exists>t. anc_loop c md s = Some t"
  unfolding anc_loop_def
  by (rule bfs_terminates[OF finite_known_ids]) (rule anc_step_bfs)

lemma desc_loop_terminates: "\<exists>t. desc_loop c md s = Some t"
  unfolding desc_loop_def
  by (rule bfs_terminates[OF finite_known_ids]) (rule desc_step_bfs)

text \<open>Under the same condition no entity is expanded in two rounds.\<close>

lemma visited_funpow_mono:
  fixes step :: "walk \<Rightarrow> walk"
  assumes mono: "\<And>s. visited_entities s \<subseteq> visited_entities (step s)"
  shows "visited_entities ((step ^^ j) s) \<subseteq> visited_entities ((step ^^ (j + n)) s)"
proof (induction n)
  case 0
  then show ?case by simp
next
  case (Suc n)
  then show ?case using mono[of "(step ^^ (j + n)) s"] by auto
qed

lemma expanded_once:
  fixes step :: "walk \<Rightarrow> walk"
  assumes mono: "\<And>s. visited_entities s \<subseteq> visited_entities (step s)"
    and mark: "\<And>s item rest. queue s = item # rest \<Longrightarrow> fst item \<in> visited_entities (step s)"
    and j: "expanded_at step s0 j x" and k: "expanded_at step s0 k x"
  shows "j = k"
proof -
  have later: "\<not> expanded_at step s0 m x" if a: "expanded_at step s0 i x" and lt: "i < m"
    for i m
  proof -
    from a obtain item rest where q: "queue ((step ^^ i) s0) = item # rest" "fst item = x"
      by (auto simp: expanded_at_def split: list.splits)
    then have "x \<in> visited_entities ((step ^^ Suc i) s0)"
      using mark[of "(step ^^ i) s0" item rest] by simp
    moreover from lt obtain n where "m = Suc i + n" using less_iff_Suc_add by auto
    ultimately have "x \<in> visited_entities ((step ^^ m) s0)"
      using visited_funpow_mono[of step "Suc i" s0 n, OF mono] by blast
    then show ?thesis by (auto simp: expanded_at_def split: list.splits)
  qed
  show ?thesis
  proof (rule ccontr)
    assume "j \<noteq> k"
    then consider "j < k" | "k < j" by linarith
    then show False using later j k by cases blast+
  qed
qed

lemma anc_step_mono: "visited_entities s \<subseteq> visited_entities (anc_step c md s)"
  by (cases "queue s") (auto simp: anc_step_def anc_visit_visited)

lemma desc_step_mono: "visited_entities s \<subseteq> visited_entities (desc_step c md s)"
  by (cases "queue s") (auto simp: desc_step_def desc_visit_visited)

lemma get_file_ancestry_returns: "\<exists>r. get_file_ancestry c sel md = Some r"
  using anc_loop_terminates[of c md "init_walk (map eid (get_file_entities c sel))"]
  by (auto simp: get_file_ancestry_def Let_def)

lemma get_file_descendants_returns: "\<exists>r. get_file_descendants c sel md = Some r"
  using desc_loop_terminates[of c md "init_walk (map eid (get_file_entities c sel))"]
  by (auto simp: get_file_descendants_def Let_def)

lemma anc_action_nodes:
  assumes "visited_actions s = fst ` set (action_nodes s)"
  shows "visited_actions (anc_action c md x d s a) = fst ` set (action_nodes (anc_action c md x d s a))
       \<and> fst ` set (action_nodes (anc_action c md x d s a)) =
           fst ` set (action_nodes s) \<union> (if map_of (by_id c) a = None then {} else {a})"
  using assms
  by (cases "map_of (by_id c) a") (auto simp: anc_action_eq dom_update)

lemma anc_action_edges:
  "set (edges s) \<subseteq> set (edges (anc_action c md x d s a))"
  "map_of (by_id c) a \<noteq> None \<Longrightarrow> generated_edge a x \<in> set (edges (anc_action c md x d s a))"
  by (cases "map_of (by_id c) a"; auto simp: anc_action_eq)+

lemma anc_action_edge_ids:
  assumes "e \<in> set (edges (anc_action c md x d s a))"
  shows "e \<in> set (edges s) \<or> edge_entity e = x \<or> edge_entity e \<in> known_ids c"
proof (cases "map_of (by_id c) a")
  case None
  then show ?thesis using assms by (simp add: anc_action_eq)
next
  case (Some act)
  have "edge_entity (used_edge a i) \<in> known_ids c" if "i \<in> set (data_inputs c act)" for i
    using that data_inputs_known[of c act] by (auto simp: used_edge_def generated_edge_def)
  then show ?thesis using assms Some
    by (auto simp: anc_action_eq used_edge_def generated_edge_def split: if_splits)
qed

lemma foldl_anc_action_nodes:
  assumes "visited_actions s = fst ` set (action_nodes s)"
  shows "visited_actions (foldl (anc_action c md x d) s ps) =
           fst ` set (action_nodes (foldl (anc_action c md x d) s ps))
       \<and> fst ` set (action_nodes (foldl (anc_action c md x d) s ps)) =
           fst ` set (action_nodes s) \<union> {a \<in> set ps. map_of (by_id c) a \<noteq> None}"
  using assms
proof (induction ps arbitrary: s)
  case Nil
  then show ?case by simp
next
  case (Cons a ps)
  note one = anc_action_nodes[OF Cons.prems, of c md x d a]
  from one have v: "visited_actions (anc_action c md x d s a) =
      fst ` set (action_nodes (anc_action c md x d s a))"
    by blast
  from Cons.IH[OF v] one show ?case by (auto split: if_splits)
qed

lemma foldl_anc_action_edges_mono:
  "set (edges s) \<subseteq> set (edges (foldl (anc_action c md x d) s ps))"
proof (induction ps arbitrary: s)
  case Nil
  then show ?case by simp
next
  case (Cons a ps)
  from Cons[of "anc_action c md x d s a"] anc_action_edges(1)[of s c md x d a]
  show ?case by auto
qed

lemma foldl_anc_action_edges:
  assumes "a \<in> set ps" and "map_of (by_id c) a \<noteq> None"
  shows "generated_edge a x \<in> set (edges (foldl (anc_action c md x d) s ps))"
  using assms(1)
proof (induction ps arbitrary: s)
  case Nil
  then show ?case by simp
next
  case (Cons b ps)
  show ?case
  proof (cases "a = b")
    case True
    then have "generated_edge a x \<in> set (edges (anc_action c md x d s b))"
      using anc_action_edges(2)[OF assms(2), of x md d s] by simp
    then show ?thesis
      using foldl_anc_action_edges_mono[of "anc_action c md x d s b" c md x d ps] by auto
  next
    case False
    then have "a \<in> set ps" using Cons.prems by simp
    from Cons.IH[OF this] show ?thesis by simp
  qed
qed

lemma foldl_anc_action_edge_ids:
  assumes "e \<in> set (edges (foldl (anc_action c md x d) s ps))"
  shows "e \<in> set (edges s) \<or> edge_entity e = x \<or> edge_entity e \<in> known_ids c"
  using assms
proof (induction ps arbitrary: s)
  case Nil
  then show ?case by simp
next
  case (Cons a ps)
  from Cons.IH[of "anc_action c md x d s a"] Cons.prems
  have "e \<in> set (edges (anc_action c md x d s a)) \<or> edge_entity e = x
        \<or> edge_entity e \<in> known_ids c"
    by simp
  then show ?case using anc_action_edge_ids[of e c md x d s a] by blast
qed

lemma desc_action_nodes:
  assumes "visited_actions s = fst ` set (action_nodes s)"
  shows "visited_actions (desc_action c md x d s a) = fst ` set (action_nodes (desc_action c md x d s a))
       \<and> fst ` set (action_nodes (desc_action c md x d s a)) =
           fst ` set (action_nodes s) \<union> (if map_of (by_id c) a = None then {} else {a})"
  using assms
  by (cases "map_of (by_id c) a") (auto simp: desc_action_eq dom_update)

lemma desc_action_edges:
  "set (edges s) \<subseteq> set (edges (desc_action c md x d s a))"
  "map_of (by_id c) a \<noteq> None \<Longrightarrow> used_edge a x \<in> set (edges (desc_action c md x d s a))"
  by (cases "map_of (by_id c) a"; auto simp: desc_action_eq)+

lemma desc_action_edge_ids:
  assumes "e \<in> set (edges (desc_action c md x d s a))"
  shows "e \<in> set (edges s) \<or> edge_entity e = x \<or> edge_entity e \<in> known_ids c"
proof (cases "map_of (by_id c) a")
  case None
  then show ?thesis using assms by (simp add: desc_action_eq)
next
  case (Some act)
  have "edge_entity (generated_edge a i) \<in> known_ids c" if "i \<in> set (data_outputs c (result act))" for i
    using that data_outputs_known[of c "result act"] by (auto simp: used_edge_def generated_edge_def)
  then show ?thesis using assms Some
    by (auto simp: desc_action_eq used_edge_def generated_edge_def split: if_splits)
qed

lemma foldl_desc_action_nodes:
  assumes "visited_actions s = fst ` set (action_nodes s)"
  shows "visited_actions (foldl (desc_action c md x d) s ps) =
           fst ` set (action_nodes (foldl (desc_action c md x d) s ps))
       \<and> fst ` set (action_nodes (foldl (desc_action c md x d) s ps)) =
           fst ` set (action_nodes s) \<union> {a \<in> set ps. map_of (by_id c) a \<noteq> None}"
  using assms
proof (induction ps arbitrary: s)
  case Nil
  then show ?case by simp
next
  case (Cons a ps)
  note one = desc_action_nodes[OF Cons.prems, of c md x d a]
  from one have v: "visited_actions (desc_action c md x d s a) =
      fst ` set (action_nodes (desc_action c md x d s a))"
    by blast
  from Cons.IH[OF v] one show ?case by (auto split: if_splits)
qed

lemma foldl_desc_action_edges_mono:
  "set (edges s) \<subseteq> set (edges (foldl (desc_action c md x d) s ps))"
proof (induction ps arbitrary: s)
  case Nil
  then show ?case by simp
next
  case (Cons a ps)
  from Cons[of "desc_action c md x d s a"] desc_action_edges(1)[of s c md x d a]
  show ?case by auto
qed

lemma foldl_desc_action_edges:
  assumes "a \<in> set ps" and "map_of (by_id c) a \<noteq> None"
  shows "used_edge a x \<in> set (edges (foldl (desc_action c md x d) s ps))"
  using assms(1)
proof (induction ps arbitrary: s)
  case Nil
  then show ?case by simp
next
  case (Cons b ps)
  show ?case
  proof (cases "a = b")
    case True
    then have "used_edge a x \<in> set (edges (desc_action c md x d s b))"
      using desc_action_edges(2)[OF assms(2), of x md d s] by simp
    then show ?thesis
      using foldl_desc_action_edges_mono[of "desc_action c md x d s b" c md x d ps] by auto
  next
    case False
    then have "a \<in> set ps" using Cons.prems by simp
    from Cons.IH[OF this] show ?thesis by simp
  qed
qed

lemma foldl_desc_action_edge_ids:
  assumes "e \<in> set (edges (foldl (desc_action c md x d) s ps))"
  shows "e \<in> set (edges s) \<or> edge_entity e = x \<or> edge_entity e \<in> known_ids c"
  using assms
proof (induction ps arbitrary: s)
  case Nil
  then show ?case by simp
next
  case (Cons a ps)
  from Cons.IH[of "desc_action c md x d s a"] Cons.prems
  have "e \<in> set (edges (desc_action c md x d s a)) \<or> edge_entity e = x
        \<or> edge_entity e \<in> known_ids c"
    by simp
  then show ?case using desc_action_edge_ids[of e c md x d s a] by blast
qed

lemma set_update_subset: "set (AList.update k v al) \<subseteq> insert (k, v) (set al)"
  by (induction al) auto

lemma walk_invI:
  assumes a1: "visited_actions s = fst ` set (action_nodes s)"
    and a2: "\<And>k n. (k, n) \<in> set (entity_nodes s) \<Longrightarrow>
           \<exists>e. map_of (by_id c) k = Some e \<and> is_data e \<and> n = node_of e"
    and a3: "\<And>x a. x \<in> fst ` set (entity_nodes s) \<Longrightarrow> a \<in> set (dict_get_list idx x) \<Longrightarrow>
           pair a x \<in> set (edges s) \<and> a \<in> fst ` set (action_nodes s)"
    and a4: "\<And>a. a \<in> fst ` set (action_nodes s) \<Longrightarrow>
           \<exists>x. x \<in> fst ` set (entity_nodes s) \<and> a \<in> set (dict_get_list idx x)"
    and a5: "\<And>e. e \<in> set (edges s) \<Longrightarrow>
           edge_entity e \<in> known_ids c \<or> map_of (by_id c) (edge_entity e) \<noteq> None"
    and a6: "\<And>x. x \<in> visited_entities s \<Longrightarrow> \<exists>e. map_of (by_id c) x = Some e \<and> is_data e \<Longrightarrow>
           x \<in> fst ` set (entity_nodes s)"
  shows "walk_inv c idx pair s"
proof -
  have 2: "\<forall>k n. (k, n) \<in> set (entity_nodes s) \<longrightarrow>
           (\<exists>e. map_of (by_id c) k = Some e \<and> is_data e \<and> n = node_of e)"
    by (intro allI impI) (erule a2)
  have 3: "\<forall>x a. x \<in> fst ` set (entity_nodes s) \<and> a \<in> set (dict_get_list idx x) \<longrightarrow>
           pair a x \<in> set (edges s) \<and> a \<in> fst ` set (action_nodes s)"
    by (intro allI impI, elim conjE) (erule (1) a3)
  have 4: "\<forall>a. a \<in> fst ` set (action_nodes s) \<longrightarrow>
           (\<exists>x. x \<in> fst ` set (entity_nodes s) \<and> a \<in> set (dict_get_list idx x))"
    by (intro allI impI) (erule a4)
  have 5: "\<forall>e. e \<in> set (edges s) \<longrightarrow>
           edge_entity e \<in> known_ids c \<or> map_of (by_id c) (edge_entity e) \<noteq> None"
    by (intro allI impI) (erule a5)
  have 6: "\<forall>x. x \<in> visited_entities s \<and> (\<exists>e. map_of (by_id c) x = Some e \<and> is_data e) \<longrightarrow>
           x \<in> fst ` set (entity_nodes s)"
    by (intro allI impI, elim conjE) (erule (1) a6)
  show ?thesis
    unfolding walk_inv_def
    apply (rule conjI, rule a1)
    apply (rule conjI, rule 2)
    apply (rule conjI, rule 3)
    apply (rule conjI, rule 4)
    apply (rule conjI, rule 5)
    apply (rule 6)
    done
qed

lemma walk_invD:
  assumes "walk_inv c idx pair s"
  shows "visited_actions s = fst ` set (action_nodes s)"
    and "\<And>k n. (k, n) \<in> set (entity_nodes s) \<Longrightarrow>
           \<exists>e. map_of (by_id c) k = Some e \<and> is_data e \<and> n = node_of e"
    and "\<And>x a. x \<in> fst ` set (entity_nodes s) \<Longrightarrow> a \<in> set (dict_get_list idx x) \<Longrightarrow>
           pair a x \<in> set (edges s) \<and> a \<in> fst ` set (action_nodes s)"
    and "\<And>a. a \<in> fst ` set (action_nodes s) \<Longrightarrow>
           \<exists>x. x \<in> fst ` set (entity_nodes s) \<and> a \<in> set (dict_get_list idx x)"
    and "\<And>e. e \<in> set (edges s) \<Longrightarrow>
           edge_entity e \<in> known_ids c \<or> map_of (by_id c) (edge_entity e) \<noteq> None"
    and "\<And>x. x \<in> visited_entities s \<Longrightarrow> \<exists>e. map_of (by_id c) x = Some e \<and> is_data e \<Longrightarrow>
           x \<in> fst ` set (entity_nodes s)"
proof -
  note w = assms[unfolded walk_inv_def]
  note w1 = w[THEN conjunct1]
  note w2 = w[THEN conjunct2, THEN conjunct1]
  note w3 = w[THEN conjunct2, THEN conjunct2, THEN conjunct1]
  note w4 = w[THEN conjunct2, THEN conjunct2, THEN conjunct2, THEN conjunct1]
  note w5 = w[THEN conjunct2, THEN conjunct2, THEN conjunct2, THEN conjunct2, THEN conjunct1]
  note w6 = w[THEN conjunct2, THEN conjunct2, THEN conjunct2, THEN conjunct2, THEN conjunct2]
  show "visited_actions s = fst ` set (action_nodes s)" by (rule w1)
  show "\<And>k n. (k, n) \<in> set (entity_nodes s) \<Longrightarrow>
           \<exists>e. map_of (by_id c) k = Some e \<and> is_data e \<and> n = node_of e"
    by (rule w2[rule_format])
  show "\<And>x a. x \<in> fst ` set (entity_nodes s) \<Longrightarrow> a \<in> set (dict_get_list idx x) \<Longrightarrow>
           pair a x \<in> set (edges s) \<and> a \<in> fst ` set (action_nodes s)"
    by (rule w3[rule_format, OF conjI])
  show "\<And>a. a \<in> fst ` set (action_nodes s) \<Longrightarrow>
           \<exists>x. x \<in> fst ` set (entity_nodes s) \<and> a \<in> set (dict_get_list idx x)"
    by (rule w4[rule_format])
  show "\<And>e. e \<in> set (edges s) \<Longrightarrow>
           edge_entity e \<in> known_ids c \<or> map_of (by_id c) (edge_entity e) \<noteq> None"
    by (rule w5[rule_format])
  show "\<And>x. x \<in> visited_entities s \<Longrightarrow> \<exists>e. map_of (by_id c) x = Some e \<and> is_data e \<Longrightarrow>
           x \<in> fst ` set (entity_nodes s)"
    by (rule w6[rule_format, OF conjI])
qed

lemma walk_inv_mark:
  assumes inv: "walk_inv c idx pair s"
    and nd: "\<not> (\<exists>e. map_of (by_id c) x = Some e \<and> is_data e)"
  shows "walk_inv c idx pair (s\<lparr> visited_entities := insert x (visited_entities s) \<rparr>)"
proof (rule walk_invI)
  let ?s = "s\<lparr> visited_entities := insert x (visited_entities s) \<rparr>"
  show "visited_actions ?s = fst ` set (action_nodes ?s)"
    using walk_invD(1)[OF inv] by simp
  show "\<exists>e. map_of (by_id c) k = Some e \<and> is_data e \<and> n = node_of e"
    if "(k, n) \<in> set (entity_nodes ?s)" for k n
    using walk_invD(2)[OF inv, of k n] that by simp
  show "pair a y \<in> set (edges ?s) \<and> a \<in> fst ` set (action_nodes ?s)"
    if "y \<in> fst ` set (entity_nodes ?s)" "a \<in> set (dict_get_list idx y)" for y a
    using walk_invD(3)[OF inv, of y a] that by simp
  show "\<exists>y. y \<in> fst ` set (entity_nodes ?s) \<and> a \<in> set (dict_get_list idx y)"
    if "a \<in> fst ` set (action_nodes ?s)" for a
    using walk_invD(4)[OF inv, of a] that by simp
  show "edge_entity e \<in> known_ids c \<or> map_of (by_id c) (edge_entity e) \<noteq> None"
    if "e \<in> set (edges ?s)" for e
    using walk_invD(5)[OF inv, of e] that by simp
  show "y \<in> fst ` set (entity_nodes ?s)"
    if "y \<in> visited_entities ?s" "\<exists>e. map_of (by_id c) y = Some e \<and> is_data e" for y
  proof -
    from that nd have "y \<noteq> x" by blast
    with that(1) have "y \<in> visited_entities s" by simp
    from walk_invD(6)[OF inv this that(2)] show ?thesis by simp
  qed
qed

lemma walk_inv_queue:
  "walk_inv c idx pair s \<Longrightarrow> walk_inv c idx pair (s\<lparr> queue := q \<rparr>)"
  by (simp add: walk_inv_def)

lemma walk_inv_init: "walk_inv c idx pair (init_walk roots)"
  by (simp add: walk_inv_def init_walk_def)

lemma anc_visit_inv:
  assumes res: "index_resolves c (actions_by_result c)"
    and inv: "walk_inv c (actions_by_result c) generated_edge s"
  shows "walk_inv c (actions_by_result c) generated_edge (anc_visit c md s item)"
proof (cases item)
  case (Pair x d)
  show ?thesis
  proof (cases "x \<in> visited_entities s")
    case True
    then have "anc_visit c md s item = s" using Pair by (simp add: anc_visit_cases)
    then show ?thesis using inv by simp
  next
    case nv: False
    show ?thesis
    proof (cases "\<exists>e. map_of (by_id c) x = Some e \<and> is_data e")
      case False
      then have "anc_visit c md s item = s\<lparr> visited_entities := insert x (visited_entities s) \<rparr>"
        using Pair nv by (cases "map_of (by_id c) x") (simp_all add: anc_visit_cases)
      then show ?thesis using walk_inv_mark[OF inv False] by simp
    next
      case True
      then obtain e where e: "map_of (by_id c) x = Some e" "is_data e" by blast
      define ps where "ps = dict_get_list (actions_by_result c) x"
      define s1 where "s1 = s\<lparr> visited_entities := insert x (visited_entities s),
                                entity_nodes := AList.update x (node_of e) (entity_nodes s) \<rparr>"
      define s' where "s' = foldl (anc_action c md x d) s1 ps"
      have eq: "anc_visit c md s item = s'"
        using e nv Pair by (simp add: anc_visit_cases s'_def s1_def ps_def)
      have v1: "visited_actions s1 = fst ` set (action_nodes s1)"
        using walk_invD(1)[OF inv] by (simp add: s1_def)
      have rs: "map_of (by_id c) a \<noteq> None" if "a \<in> set ps" for a
        using res that unfolding index_resolves_def ps_def by blast
      note nodes = foldl_anc_action_nodes[OF v1, of c md x d ps, folded s'_def]
      have "{a \<in> set ps. map_of (by_id c) a \<noteq> None} = set ps" using rs by blast
      moreover have "action_nodes s1 = action_nodes s" by (simp add: s1_def)
      ultimately have keys_a: "fst ` set (action_nodes s') = fst ` set (action_nodes s) \<union> set ps"
        using nodes by simp
      have ents: "entity_nodes s' = AList.update x (node_of e) (entity_nodes s)"
        by (simp add: s'_def foldl_anc_action_frame s1_def)
      have keys_e: "fst ` set (entity_nodes s') = insert x (fst ` set (entity_nodes s))"
        by (simp add: ents dom_update)
      have vis: "visited_entities s' = insert x (visited_entities s)"
        by (simp add: s'_def foldl_anc_action_frame s1_def)
      have e1: "edges s1 = edges s" by (simp add: s1_def)
      have mono: "set (edges s) \<subseteq> set (edges s')"
        using foldl_anc_action_edges_mono[of s1 c md x d ps] by (simp only: s'_def e1)
      have "walk_inv c (actions_by_result c) generated_edge s'"
      proof (rule walk_invI)
        show "visited_actions s' = fst ` set (action_nodes s')"
          using nodes by blast
        show "\<exists>e'. map_of (by_id c) k = Some e' \<and> is_data e' \<and> n = node_of e'"
          if "(k, n) \<in> set (entity_nodes s')" for k n
        proof -
          from that have "(k, n) = (x, node_of e) \<or> (k, n) \<in> set (entity_nodes s)"
            using set_update_subset[of x "node_of e" "entity_nodes s"] unfolding ents by blast
          then show ?thesis
          proof
            assume "(k, n) = (x, node_of e)"
            then show ?thesis using e by simp
          next
            assume "(k, n) \<in> set (entity_nodes s)"
            then show ?thesis by (rule walk_invD(2)[OF inv])
          qed
        qed
        show "generated_edge a y \<in> set (edges s') \<and> a \<in> fst ` set (action_nodes s')"
          if "y \<in> fst ` set (entity_nodes s')" "a \<in> set (dict_get_list (actions_by_result c) y)" for y a
        proof (cases "y = x")
          case True
          then have a: "a \<in> set ps" using that(2) by (simp add: ps_def)
          have "generated_edge a x \<in> set (edges s')"
            unfolding s'_def by (rule foldl_anc_action_edges[OF a rs[OF a]])
          then show ?thesis using a keys_a True by simp
        next
          case False
          then have "y \<in> fst ` set (entity_nodes s)" using that(1) keys_e by simp
          from walk_invD(3)[OF inv this that(2)] show ?thesis using mono keys_a by blast
        qed
        show "\<exists>y. y \<in> fst ` set (entity_nodes s') \<and> a \<in> set (dict_get_list (actions_by_result c) y)"
          if "a \<in> fst ` set (action_nodes s')" for a
        proof (cases "a \<in> set ps")
          case True
          then show ?thesis using keys_e ps_def by blast
        next
          case False
          then have "a \<in> fst ` set (action_nodes s)" using that keys_a by simp
          from walk_invD(4)[OF inv this] show ?thesis using keys_e by blast
        qed
        show "edge_entity ed \<in> known_ids c \<or> map_of (by_id c) (edge_entity ed) \<noteq> None"
          if "ed \<in> set (edges s')" for ed
        proof -
          from that have "ed \<in> set (edges s) \<or> edge_entity ed = x \<or> edge_entity ed \<in> known_ids c"
            using foldl_anc_action_edge_ids[of ed c md x d s1 ps] by (simp only: s'_def e1)
          then show ?thesis using walk_invD(5)[OF inv, of ed] e(1) by auto
        qed
        show "y \<in> fst ` set (entity_nodes s')"
          if "y \<in> visited_entities s'" "\<exists>e'. map_of (by_id c) y = Some e' \<and> is_data e'" for y
        proof (cases "y = x")
          case True
          then show ?thesis using keys_e by simp
        next
          case False
          then have "y \<in> visited_entities s" using that(1) vis by simp
          from walk_invD(6)[OF inv this that(2)] show ?thesis using keys_e by simp
        qed
      qed
      then show ?thesis by (simp only: eq)
    qed
  qed
qed

lemma anc_step_inv:
  assumes "index_resolves c (actions_by_result c)" and "walk_inv c (actions_by_result c) generated_edge s"
  shows "walk_inv c (actions_by_result c) generated_edge (anc_step c md s)"
proof (cases "queue s")
  case Nil
  then show ?thesis using assms(2) by (simp add: anc_step_def)
next
  case (Cons item rest)
  from anc_visit_inv[OF assms(1) walk_inv_queue[OF assms(2)]] show ?thesis
    by (simp only: anc_step_Cons[OF Cons])
qed

lemma anc_loop_inv:
  assumes "index_resolves c (actions_by_result c)" and "anc_loop c md (init_walk roots) = Some t"
  shows "walk_inv c (actions_by_result c) generated_edge t"
proof (rule while_option_rule[where P = "walk_inv c (actions_by_result c) generated_edge",
      OF _ assms(2)[unfolded anc_loop_def]])
  show "walk_inv c (actions_by_result c) generated_edge (init_walk roots)"
    by (rule walk_inv_init)
next
  fix s
  assume "walk_inv c (actions_by_result c) generated_edge s" "queue s \<noteq> []"
  then show "walk_inv c (actions_by_result c) generated_edge (anc_step c md s)"
    using anc_step_inv[OF assms(1)] by blast
qed

lemma desc_visit_inv:
  assumes res: "index_resolves c (actions_by_input c)"
    and inv: "walk_inv c (actions_by_input c) used_edge s"
  shows "walk_inv c (actions_by_input c) used_edge (desc_visit c md s item)"
proof (cases item)
  case (Pair x d)
  show ?thesis
  proof (cases "x \<in> visited_entities s")
    case True
    then have "desc_visit c md s item = s" using Pair by (simp add: desc_visit_cases)
    then show ?thesis using inv by simp
  next
    case nv: False
    show ?thesis
    proof (cases "\<exists>e. map_of (by_id c) x = Some e \<and> is_data e")
      case False
      then have "desc_visit c md s item = s\<lparr> visited_entities := insert x (visited_entities s) \<rparr>"
        using Pair nv by (cases "map_of (by_id c) x") (simp_all add: desc_visit_cases)
      then show ?thesis using walk_inv_mark[OF inv False] by simp
    next
      case True
      then obtain e where e: "map_of (by_id c) x = Some e" "is_data e" by blast
      define ps where "ps = dict_get_list (actions_by_input c) x"
      define s1 where "s1 = s\<lparr> visited_entities := insert x (visited_entities s),
                                entity_nodes := AList.update x (node_of e) (entity_nodes s) \<rparr>"
      define s' where "s' = foldl (desc_action c md x d) s1 ps"
      have eq: "desc_visit c md s item = s'"
        using e nv Pair by (simp add: desc_visit_cases s'_def s1_def ps_def)
      have v1: "visited_actions s1 = fst ` set (action_nodes s1)"
        using walk_invD(1)[OF inv] by (simp add: s1_def)
      have rs: "map_of (by_id c) a \<noteq> None" if "a \<in> set ps" for a
        using res that unfolding index_resolves_def ps_def by blast
      note nodes = foldl_desc_action_nodes[OF v1, of c md x d ps, folded s'_def]
      have "{a \<in> set ps. map_of (by_id c) a \<noteq> None} = set ps" using rs by blast
      moreover have "action_nodes s1 = action_nodes s" by (simp add: s1_def)
      ultimately have keys_a: "fst ` set (action_nodes s') = fst ` set (action_nodes s) \<union> set ps"
        using nodes by simp
      have ents: "entity_nodes s' = AList.update x (node_of e) (entity_nodes s)"
        by (simp add: s'_def foldl_desc_action_frame s1_def)
      have keys_e: "fst ` set (entity_nodes s') = insert x (fst ` set (entity_nodes s))"
        by (simp add: ents dom_update)
      have vis: "visited_entities s' = insert x (visited_entities s)"
        by (simp add: s'_def foldl_desc_action_frame s1_def)
      have e1: "edges s1 = edges s" by (simp add: s1_def)
      have mono: "set (edges s) \<subseteq> set (edges s')"
        using foldl_desc_action_edges_mono[of s1 c md x d ps] by (simp only: s'_def e1)
      have "walk_inv c (actions_by_input c) used_edge s'"
      proof (rule walk_invI)
        show "visited_actions s' = fst ` set (action_nodes s')"
          using nodes by blast
        show "\<exists>e'. map_of (by_id c) k = Some e' \<and> is_data e' \<and> n = node_of e'"
          if "(k, n) \<in> set (entity_nodes s')" for k n
        proof -
          from that have "(k, n) = (x, node_of e) \<or> (k, n) \<in> set (entity_nodes s)"
            using set_update_subset[of x "node_of e" "entity_nodes s"] unfolding ents by blast
          then show ?thesis
          proof
            assume "(k, n) = (x, node_of e)"
            then show ?thesis using e by simp
          next
            assume "(k, n) \<in> set (entity_nodes s)"
            then show ?thesis by (rule walk_invD(2)[OF inv])
          qed
        qed
        show "used_edge a y \<in> set (edges s') \<and> a \<in> fst ` set (action_nodes s')"
          if "y \<in> fst ` set (entity_nodes s')" "a \<in> set (dict_get_list (actions_by_input c) y)" for y a
        proof (cases "y = x")
          case True
          then have a: "a \<in> set ps" using that(2) by (simp add: ps_def)
          have "used_edge a x \<in> set (edges s')"
            unfolding s'_def by (rule foldl_desc_action_edges[OF a rs[OF a]])
          then show ?thesis using a keys_a True by simp
        next
          case False
          then have "y \<in> fst ` set (entity_nodes s)" using that(1) keys_e by simp
          from walk_invD(3)[OF inv this that(2)] show ?thesis using mono keys_a by blast
        qed
        show "\<exists>y. y \<in> fst ` set (entity_nodes s') \<and> a \<in> set (dict_get_list (actions_by_input c) y)"
          if "a \<in> fst ` set (action_nodes s')" for a
        proof (cases "a \<in> set ps")
          case True
          then show ?thesis using keys_e ps_def by blast
        next
          case False
          then have "a \<in> fst ` set (action_nodes s)" using that keys_a by simp
          from walk_invD(4)[OF inv this] show ?thesis using keys_e by blast
        qed
        show "edge_entity ed \<in> known_ids c \<or> map_of (by_id c) (edge_entity ed) \<noteq> None"
          if "ed \<in> set (edges s')" for ed
        proof -
          from that have "ed \<in> set (edges s) \<or> edge_entity ed = x \<or> edge_entity ed \<in> known_ids c"
            using foldl_desc_action_edge_ids[of ed c md x d s1 ps] by (simp only: s'_def e1)
          then show ?thesis using walk_invD(5)[OF inv, of ed] e(1) by auto
        qed
        show "y \<in> fst ` set (entity_nodes s')"
          if "y \<in> visited_entities s'" "\<exists>e'. map_of (by_id c) y = Some e' \<and> is_data e'" for y
        proof (cases "y = x")
          case True
          then show ?thesis using keys_e by simp
        next
          case False
          then have "y \<in> visited_entities s" using that(1) vis by simp
          from walk_invD(6)[OF inv this that(2)] show ?thesis using keys_e by simp
        qed
      qed
      then show ?thesis by (simp only: eq)
    qed
  qed
qed

lemma desc_step_inv:
  assumes "index_resolves c (actions_by_input c)" and "walk_inv c (actions_by_input c) used_edge s"
  shows "walk_inv c (actions_by_input c) used_edge (desc_step c md s)"
proof (cases "queue s")
  case Nil
  then show ?thesis using assms(2) by (simp add: desc_step_def)
next
  case (Cons item rest)
  from desc_visit_inv[OF assms(1) walk_inv_queue[OF assms(2)]] show ?thesis
    by (simp only: desc_step_Cons[OF Cons])
qed

lemma desc_loop_inv:
  assumes "index_resolves c (actions_by_input c)" and "desc_loop c md (init_walk roots) = Some t"
  shows "walk_inv c (actions_by_input c) used_edge t"
proof (rule while_option_rule[where P = "walk_inv c (actions_by_input c) used_edge",
      OF _ assms(2)[unfolded desc_loop_def]])
  show "walk_inv c (actions_by_input c) used_edge (init_walk roots)"
    by (rule walk_inv_init)
next
  fix s
  assume "walk_inv c (actions_by_input c) used_edge s" "queue s \<noteq> []"
  then show "walk_inv c (actions_by_input c) used_edge (desc_step c md s)"
    using desc_step_inv[OF assms(1)] by blast
qed

lemma anc_visit_entity_keys:
  "fst ` set (entity_nodes (anc_visit c md s item)) \<subseteq>
     insert (fst item) (fst ` set (entity_nodes s))"
proof (cases item)
  case (Pair x d)
  show ?thesis
  proof (cases "x \<notin> visited_entities s \<and> (\<exists>e. map_of (by_id c) x = Some e \<and> is_data e)")
    case True
    then obtain e where "map_of (by_id c) x = Some e" "is_data e" "x \<notin> visited_entities s"
      by blast
    then have "entity_nodes (anc_visit c md s item) =
        AList.update x (node_of e) (entity_nodes s)"
      using Pair by (simp add: anc_visit_cases foldl_anc_action_frame)
    then show ?thesis using Pair by (simp add: dom_update)
  next
    case False
    then have "entity_nodes (anc_visit c md s item) = entity_nodes s"
      using Pair by (cases "map_of (by_id c) x") (auto simp: anc_visit_cases)
    then show ?thesis by auto
  qed
qed

lemma anc_loop_stops:
  assumes "anc_loop c md s = Some t"
  shows "queue t = []"
  using while_option_stop[OF assms[unfolded anc_loop_def]] by simp

lemma anc_loop_roots_visited:
  assumes "anc_loop c md (init_walk roots) = Some t"
  shows "set roots \<subseteq> visited_entities t"
proof -
  have "set roots \<subseteq> fst ` set (queue t) \<union> visited_entities t"
  proof (rule while_option_rule[where
        P = "\<lambda>s. set roots \<subseteq> fst ` set (queue s) \<union> visited_entities s",
        OF _ assms[unfolded anc_loop_def]])
    show "set roots \<subseteq> fst ` set (queue (init_walk roots)) \<union> visited_entities (init_walk roots)"
      by (simp add: init_walk_def image_comp comp_def)
  next
    fix s :: walk
    assume inv: "set roots \<subseteq> fst ` set (queue s) \<union> visited_entities s" and ne: "queue s \<noteq> []"
    then obtain item rest where q: "queue s = item # rest" by (cases "queue s") auto
    from anc_visit_queue[of c md "s\<lparr> queue := rest \<rparr>" item] obtain new where
      n: "queue (anc_step c md s) = rest @ new"
      by (auto simp: anc_step_Cons[OF q])
    have v: "visited_entities (anc_step c md s) = insert (fst item) (visited_entities s)"
      using anc_step_bfs[OF q] by blast
    show "set roots \<subseteq> fst ` set (queue (anc_step c md s)) \<union> visited_entities (anc_step c md s)"
      using inv q unfolding n v by auto
  qed
  then show ?thesis using anc_loop_stops[OF assms] by simp
qed

lemma anc_loop_depth_zero:
  assumes "anc_loop c (Some 0) (init_walk roots) = Some t"
  shows "fst ` set (entity_nodes t) \<subseteq> set roots"
proof -
  let ?Z = "\<lambda>s. set (queue s) \<subseteq> (\<lambda>r. (r, 0)) ` set roots
                \<and> fst ` set (entity_nodes s) \<subseteq> set roots"
  have "?Z t"
  proof (rule while_option_rule[where P = ?Z, OF _ assms[unfolded anc_loop_def]])
    show "?Z (init_walk roots)" by (simp add: init_walk_def)
  next
    fix s :: walk
    assume inv: "?Z s" and ne: "queue s \<noteq> []"
    then obtain item rest where q: "queue s = item # rest" by (cases "queue s") auto
    from inv q have "item \<in> (\<lambda>r. (r, 0)) ` set roots" by simp
    then have item: "snd item = 0" "fst item \<in> set roots" by auto
    have nw: "\<not> within_depth (Some 0) (snd item)" using item by (simp add: within_depth_def)
    from anc_visit_queue[of c "Some 0" "s\<lparr> queue := rest \<rparr>" item] nw
    have n: "queue (anc_step c (Some 0) s) = rest"
      by (auto simp: anc_step_Cons[OF q])
    have k: "fst ` set (entity_nodes (anc_step c (Some 0) s)) \<subseteq>
        insert (fst item) (fst ` set (entity_nodes s))"
      using anc_visit_entity_keys[of c "Some 0" "s\<lparr> queue := rest \<rparr>" item]
      by (simp add: anc_step_Cons[OF q])
    from inv have a: "set (queue s) \<subseteq> (\<lambda>r. (r, 0)) ` set roots"
      by (rule conjunct1)
    from inv have b: "fst ` set (entity_nodes s) \<subseteq> set roots"
      by (rule conjunct2)
    have "insert (fst item) (fst ` set (entity_nodes s)) \<subseteq> set roots"
      using item(2) b by (rule insert_subsetI)
    with k have e: "fst ` set (entity_nodes (anc_step c (Some 0) s)) \<subseteq> set roots"
      by (rule subset_trans)
    have r: "set rest \<subseteq> (\<lambda>r. (r, 0)) ` set roots"
      using a unfolding q by simp
    show "?Z (anc_step c (Some 0) s)"
      unfolding n using r e by (rule conjI)
  qed
  then show ?thesis by (rule conjunct2)
qed

lemma desc_visit_entity_keys:
  "fst ` set (entity_nodes (desc_visit c md s item)) \<subseteq>
     insert (fst item) (fst ` set (entity_nodes s))"
proof (cases item)
  case (Pair x d)
  show ?thesis
  proof (cases "x \<notin> visited_entities s \<and> (\<exists>e. map_of (by_id c) x = Some e \<and> is_data e)")
    case True
    then obtain e where "map_of (by_id c) x = Some e" "is_data e" "x \<notin> visited_entities s"
      by blast
    then have "entity_nodes (desc_visit c md s item) =
        AList.update x (node_of e) (entity_nodes s)"
      using Pair by (simp add: desc_visit_cases foldl_desc_action_frame)
    then show ?thesis using Pair by (simp add: dom_update)
  next
    case False
    then have "entity_nodes (desc_visit c md s item) = entity_nodes s"
      using Pair by (cases "map_of (by_id c) x") (auto simp: desc_visit_cases)
    then show ?thesis by auto
  qed
qed

lemma desc_loop_stops:
  assumes "desc_loop c md s = Some t"
  shows "queue t = []"
  using while_option_stop[OF assms[unfolded desc_loop_def]] by simp

lemma desc_loop_roots_visited:
  assumes "desc_loop c md (init_walk roots) = Some t"
  shows "set roots \<subseteq> visited_entities t"
proof -
  have "set roots \<subseteq> fst ` set (queue t) \<union> visited_entities t"
  proof (rule while_option_rule[where
        P = "\<lambda>s. set roots \<subseteq> fst ` set (queue s) \<union> visited_entities s",
        OF _ assms[unfolded desc_loop_def]])
    show "set roots \<subseteq> fst ` set (queue (init_walk roots)) \<union> visited_entities (init_walk roots)"
      by (simp add: init_walk_def image_comp comp_def)
  next
    fix s :: walk
    assume inv: "set roots \<subseteq> fst ` set (queue s) \<union> visited_entities s" and ne: "queue s \<noteq> []"
    then obtain item rest where q: "queue s = item # rest" by (cases "queue s") auto
    from desc_visit_queue[of c md "s\<lparr> queue := rest \<rparr>" item] obtain new where
      n: "queue (desc_step c md s) = rest @ new"
      by (auto simp: desc_step_Cons[OF q])
    have v: "visited_entities (desc_step c md s) = insert (fst item) (visited_entities s)"
      using desc_step_bfs[OF q] by blast
    show "set roots \<subseteq> fst ` set (queue (desc_step c md s)) \<union> visited_entities (desc_step c md s)"
      using inv q unfolding n v by auto
  qed
  then show ?thesis using desc_loop_stops[OF assms] by simp
qed

lemma desc_loop_depth_zero:
  assumes "desc_loop c (Some 0) (init_walk roots) = Some t"
  shows "fst ` set (entity_nodes t) \<subseteq> set roots"
proof -
  let ?Z = "\<lambda>s. set (queue s) \<subseteq> (\<lambda>r. (r, 0)) ` set roots
                \<and> fst ` set (entity_nodes s) \<subseteq> set roots"
  have "?Z t"
  proof (rule while_option_rule[where P = ?Z, OF _ assms[unfolded desc_loop_def]])
    show "?Z (init_walk roots)" by (simp add: init_walk_def)
  next
    fix s :: walk
    assume inv: "?Z s" and ne: "queue s \<noteq> []"
    then obtain item rest where q: "queue s = item # rest" by (cases "queue s") auto
    from inv q have "item \<in> (\<lambda>r. (r, 0)) ` set roots" by simp
    then have item: "snd item = 0" "fst item \<in> set roots" by auto
    have nw: "\<not> within_depth (Some 0) (snd item)" using item by (simp add: within_depth_def)
    from desc_visit_queue[of c "Some 0" "s\<lparr> queue := rest \<rparr>" item] nw
    have n: "queue (desc_step c (Some 0) s) = rest"
      by (auto simp: desc_step_Cons[OF q])
    have k: "fst ` set (entity_nodes (desc_step c (Some 0) s)) \<subseteq>
        insert (fst item) (fst ` set (entity_nodes s))"
      using desc_visit_entity_keys[of c "Some 0" "s\<lparr> queue := rest \<rparr>" item]
      by (simp add: desc_step_Cons[OF q])
    from inv have a: "set (queue s) \<subseteq> (\<lambda>r. (r, 0)) ` set roots"
      by (rule conjunct1)
    from inv have b: "fst ` set (entity_nodes s) \<subseteq> set roots"
      by (rule conjunct2)
    have "insert (fst item) (fst ` set (entity_nodes s)) \<subseteq> set roots"
      using item(2) b by (rule insert_subsetI)
    with k have e: "fst ` set (entity_nodes (desc_step c (Some 0) s)) \<subseteq> set roots"
      by (rule subset_trans)
    have r: "set rest \<subseteq> (\<lambda>r. (r, 0)) ` set roots"
      using a unfolding q by simp
    show "?Z (desc_step c (Some 0) s)"
      unfolding n using r e by (rule conjI)
  qed
  then show ?thesis by (rule conjunct2)
qed

section \<open>Results of the walks on a built crate\<close>

lemma anc_loop_empty: "anc_loop c md (init_walk []) = Some (init_walk [])"
  by (simp add: anc_loop_def while_option_unfold init_walk_def)

lemma desc_loop_empty: "desc_loop c md (init_walk []) = Some (init_walk [])"
  by (simp add: desc_loop_def while_option_unfold init_walk_def)

lemma ancestry_walk:
  "\<exists>t. anc_loop c md (init_walk (map eid (get_file_entities c sel))) = Some t
       \<and> get_file_ancestry c sel md =
           Some \<lparr> res_root_files = map summarise_file (get_file_entities c sel),
                  res_entities = entity_nodes t,
                  res_actions = action_nodes t,
                  res_edges = edges t \<rparr>"
proof (cases "get_file_entities c sel = []")
  case True
  have "get_file_ancestry c sel md =
           Some \<lparr> res_root_files = map summarise_file (get_file_entities c sel),
                  res_entities = entity_nodes (init_walk []),
                  res_actions = action_nodes (init_walk []),
                  res_edges = edges (init_walk []) \<rparr>"
    using True by (simp add: get_file_ancestry_def empty_subgraph_def init_walk_def)
  moreover have "anc_loop c md (init_walk (map eid (get_file_entities c sel))) =
      Some (init_walk [])"
    using True by (simp add: anc_loop_empty)
  ultimately show ?thesis by blast
next
  case False
  from anc_loop_terminates[of c md "init_walk (map eid (get_file_entities c sel))"]
  obtain t where "anc_loop c md (init_walk (map eid (get_file_entities c sel))) = Some t"
    by blast
  then show ?thesis using False by (simp add: get_file_ancestry_def Let_def)
qed

lemma descendants_walk:
  "\<exists>t. desc_loop c md (init_walk (map eid (get_file_entities c sel))) = Some t
       \<and> get_file_descendants c sel md =
           Some \<lparr> res_root_files = map summarise_file (get_file_entities c sel),
                  res_entities = entity_nodes t,
                  res_actions = action_nodes t,
                  res_edges = edges t,
                  res_descendant_files =
                    collect_descendant_files (map eid (get_file_entities c sel))
                      (entity_nodes t) \<rparr>"
proof (cases "get_file_entities c sel = []")
  case True
  have "get_file_descendants c sel md =
           Some \<lparr> res_root_files = map summarise_file (get_file_entities c sel),
                  res_entities = entity_nodes (init_walk []),
                  res_actions = action_nodes (init_walk []),
                  res_edges = edges (init_walk []),
                  res_descendant_files =
                    collect_descendant_files (map eid (get_file_entities c sel))
                      (entity_nodes (init_walk [])) \<rparr>"
    using True
    by (simp add: get_file_descendants_def empty_descendants_def init_walk_def
          collect_descendant_files_def)
  moreover have "desc_loop c md (init_walk (map eid (get_file_entities c sel))) =
      Some (init_walk [])"
    using True by (simp add: desc_loop_empty)
  ultimately show ?thesis by blast
next
  case False
  from desc_loop_terminates[of c md "init_walk (map eid (get_file_entities c sel))"]
  obtain t where "desc_loop c md (init_walk (map eid (get_file_entities c sel))) = Some t"
    by blast
  then show ?thesis using False by (simp add: get_file_descendants_def Let_def)
qed

lemma result_index_resolves: "index_resolves (build_indexes g) (actions_by_result (build_indexes g))"
  unfolding index_resolves_def using producers_resolve by blast

lemma input_index_resolves: "index_resolves (build_indexes g) (actions_by_input (build_indexes g))"
  unfolding index_resolves_def using consumers_resolve by blast


lemma file_entities_are_files:
  "f \<in> set (get_file_entities c sel) \<Longrightarrow> has_type f ''File''"
  by (auto simp: get_file_entities_def Let_def find_files_by_altname_def
        split: option.splits if_splits)

lemma file_entities_in_graph:
  assumes "f \<in> set (get_file_entities (build_indexes g) sel)"
  shows "f \<in> set g"
proof -
  let ?c = "build_indexes g"
  from assms have "(\<exists>k. map_of (by_id ?c) k = Some f) \<or> f \<in> snd ` set (by_id ?c) \<or> f \<in> set g"
    by (auto simp: get_file_entities_def Let_def find_files_by_altname_def
          split: option.splits if_splits)
  then show ?thesis using by_id_sound[of g _ f] by_id_values[of f g] by blast
qed

lemma roots_resolve_to_files:
  assumes d: "distinct (map eid g)" and f: "f \<in> set (get_file_entities (build_indexes g) sel)"
  shows "map_of (by_id (build_indexes g)) (eid f) = Some f \<and> is_data f"
  using file_entities_in_graph[OF f] file_entities_are_files[OF f]
    map_of_by_id_distinct[OF d, of f]
  by (simp add: by_id_distinct[OF d] is_data_def)

lemma walk_inv_action_keys:
  assumes "walk_inv c idx pair t"
  shows "fst ` set (action_nodes t) = (\<Union>x \<in> fst ` set (entity_nodes t). set (dict_get_list idx x))"
proof (intro equalityI subsetI)
  fix a assume "a \<in> fst ` set (action_nodes t)"
  from walk_invD(4)[OF assms this] show "a \<in> (\<Union>x \<in> fst ` set (entity_nodes t). set (dict_get_list idx x))"
    by blast
next
  fix a assume "a \<in> (\<Union>x \<in> fst ` set (entity_nodes t). set (dict_get_list idx x))"
  then obtain x where "x \<in> fst ` set (entity_nodes t)" "a \<in> set (dict_get_list idx x)" by blast
  from walk_invD(3)[OF assms this] show "a \<in> fst ` set (action_nodes t)" by blast
qed

lemma roots_in_entity_nodes:
  assumes inv: "walk_inv (build_indexes g) idx pair t"
    and d: "distinct (map eid g)"
    and v: "set (map eid (get_file_entities (build_indexes g) sel)) \<subseteq> visited_entities t"
  shows "eid ` set (get_file_entities (build_indexes g) sel) \<subseteq> fst ` set (entity_nodes t)"
proof
  fix k assume "k \<in> eid ` set (get_file_entities (build_indexes g) sel)"
  then obtain f where f: "f \<in> set (get_file_entities (build_indexes g) sel)" "k = eid f" by blast
  from roots_resolve_to_files[OF d f(1)]
  have "\<exists>e. map_of (by_id (build_indexes g)) k = Some e \<and> is_data e" using f(2) by blast
  moreover have "k \<in> visited_entities t" using v f by auto
  ultimately show "k \<in> fst ` set (entity_nodes t)" using walk_invD(6)[OF inv] by blast
qed

text \<open>
  C2 (as amended). With \<^verbatim>\<open>max_depth = 0\<close> both walks return; the keys of \<^verbatim>\<open>entities\<close>
  are ids of roots only (all the roots when the ids of the graph are unique), and the
  keys of \<^verbatim>\<open>actions\<close> are exactly the entries that the index of the walk holds under
  the ids of those entities: \<^verbatim>\<open>actions_by_result\<close> in the ancestry walk,
  \<^verbatim>\<open>actions_by_input\<close> in the descendants walk. The depth limit stops the queueing of
  further entities, not the expansion of the indexed actions of a root.
\<close>

theorem depth_zero_roots_and_direct_actions:
  "(\<exists>r. get_file_ancestry (build_indexes g) sel (Some 0) = Some r
      \<and> fst ` set (res_entities r) \<subseteq> eid ` set (get_file_entities (build_indexes g) sel)
      \<and> fst ` set (res_actions r) =
          (\<Union>x \<in> fst ` set (res_entities r).
             set (dict_get_list (actions_by_result (build_indexes g)) x))
      \<and> (distinct (map eid g) \<longrightarrow>
           fst ` set (res_entities r) = eid ` set (get_file_entities (build_indexes g) sel)))
   \<and> (\<exists>r. get_file_descendants (build_indexes g) sel (Some 0) = Some r
      \<and> fst ` set (res_entities r) \<subseteq> eid ` set (get_file_entities (build_indexes g) sel)
      \<and> fst ` set (res_actions r) =
          (\<Union>x \<in> fst ` set (res_entities r).
             set (dict_get_list (actions_by_input (build_indexes g)) x))
      \<and> (distinct (map eid g) \<longrightarrow>
           fst ` set (res_entities r) = eid ` set (get_file_entities (build_indexes g) sel)))"
proof (rule conjI)
  let ?c = "build_indexes g"
  let ?roots = "map eid (get_file_entities ?c sel)"
  from ancestry_walk[of ?c "Some 0" sel] obtain t where
    t: "anc_loop ?c (Some 0) (init_walk ?roots) = Some t"
    and r: "get_file_ancestry ?c sel (Some 0) =
           Some \<lparr> res_root_files = map summarise_file (get_file_entities ?c sel),
                  res_entities = entity_nodes t,
                  res_actions = action_nodes t,
                  res_edges = edges t \<rparr>"
    by blast
  note inv = anc_loop_inv[OF result_index_resolves t]
  have 1: "fst ` set (entity_nodes t) \<subseteq> eid ` set (get_file_entities ?c sel)"
    using anc_loop_depth_zero[OF t] by simp
  have 2: "fst ` set (action_nodes t) =
      (\<Union>x \<in> fst ` set (entity_nodes t). set (dict_get_list (actions_by_result ?c) x))"
    by (rule walk_inv_action_keys[OF inv])
  have 3: "fst ` set (entity_nodes t) = eid ` set (get_file_entities ?c sel)"
    if "distinct (map eid g)"
    using 1 roots_in_entity_nodes[OF inv that anc_loop_roots_visited[OF t]] by (rule equalityI)
  show "\<exists>r. get_file_ancestry ?c sel (Some 0) = Some r
      \<and> fst ` set (res_entities r) \<subseteq> eid ` set (get_file_entities ?c sel)
      \<and> fst ` set (res_actions r) =
          (\<Union>x \<in> fst ` set (res_entities r). set (dict_get_list (actions_by_result ?c) x))
      \<and> (distinct (map eid g) \<longrightarrow>
           fst ` set (res_entities r) = eid ` set (get_file_entities ?c sel))"
    unfolding r using 1 2 3 by simp
next
  let ?c = "build_indexes g"
  let ?roots = "map eid (get_file_entities ?c sel)"
  from descendants_walk[of ?c "Some 0" sel] obtain t where
    t: "desc_loop ?c (Some 0) (init_walk ?roots) = Some t"
    and r: "get_file_descendants ?c sel (Some 0) =
           Some \<lparr> res_root_files = map summarise_file (get_file_entities ?c sel),
                  res_entities = entity_nodes t,
                  res_actions = action_nodes t,
                  res_edges = edges t,
                  res_descendant_files = collect_descendant_files ?roots (entity_nodes t) \<rparr>"
    by blast
  note inv = desc_loop_inv[OF input_index_resolves t]
  have 1: "fst ` set (entity_nodes t) \<subseteq> eid ` set (get_file_entities ?c sel)"
    using desc_loop_depth_zero[OF t] by simp
  have 2: "fst ` set (action_nodes t) =
      (\<Union>x \<in> fst ` set (entity_nodes t). set (dict_get_list (actions_by_input ?c) x))"
    by (rule walk_inv_action_keys[OF inv])
  have 3: "fst ` set (entity_nodes t) = eid ` set (get_file_entities ?c sel)"
    if "distinct (map eid g)"
    using 1 roots_in_entity_nodes[OF inv that desc_loop_roots_visited[OF t]] by (rule equalityI)
  show "\<exists>r. get_file_descendants ?c sel (Some 0) = Some r
      \<and> fst ` set (res_entities r) \<subseteq> eid ` set (get_file_entities ?c sel)
      \<and> fst ` set (res_actions r) =
          (\<Union>x \<in> fst ` set (res_entities r). set (dict_get_list (actions_by_input ?c) x))
      \<and> (distinct (map eid g) \<longrightarrow>
           fst ` set (res_entities r) = eid ` set (get_file_entities ?c sel))"
    unfolding r using 1 2 3 by simp
qed

section \<open>Termination\<close>

text \<open>
  C9. On every crate, cyclic or not, and from every state of the local variables, the
  loop of each walk ends, and so \<^verbatim>\<open>get_file_ancestry\<close> and \<^verbatim>\<open>get_file_descendants\<close>
  return. A round never removes an entity from \<^verbatim>\<open>visited_entities\<close>, and no entity is
  expanded (taken from the queue while not yet visited) in two different rounds.
\<close>

theorem walks_terminate_expand_once:
  "(\<exists>t. anc_loop c md s = Some t) \<and> (\<exists>t. desc_loop c md s = Some t)
   \<and> (\<exists>r. get_file_ancestry c sel md = Some r)
   \<and> (\<exists>r. get_file_descendants c sel md = Some r)
   \<and> visited_entities s \<subseteq> visited_entities (anc_step c md s)
   \<and> visited_entities s \<subseteq> visited_entities (desc_step c md s)
   \<and> (expanded_at (anc_step c md) s j x \<and> expanded_at (anc_step c md) s k x \<longrightarrow> j = k)
   \<and> (expanded_at (desc_step c md) s j x \<and> expanded_at (desc_step c md) s k x \<longrightarrow> j = k)"
proof -
  have a: "expanded_at (anc_step c md) s j x \<and> expanded_at (anc_step c md) s k x \<longrightarrow> j = k"
    using expanded_once[of "anc_step c md" s j x k] anc_step_mono anc_step_bfs by blast
  have d: "expanded_at (desc_step c md) s j x \<and> expanded_at (desc_step c md) s k x \<longrightarrow> j = k"
    using expanded_once[of "desc_step c md" s j x k] desc_step_mono desc_step_bfs by blast
  show ?thesis
    using anc_loop_terminates desc_loop_terminates get_file_ancestry_returns
      get_file_descendants_returns anc_step_mono desc_step_mono a d
    by (intro conjI)
qed


lemma cyc_e0:
  "expanded_at (anc_step (build_indexes cycle_graph) None) (init_walk [''x.csv'']) 0 ''x.csv''"
  by code_simp

lemma cyc_q2:
  "map fst (queue ((anc_step (build_indexes cycle_graph) None ^^ 2) (init_walk [''x.csv''])))
       = [''x.csv'']"
  by code_simp

lemma cyc_r:
  "map_option (map fst \<circ> res_entities)
         (get_file_ancestry (build_indexes cycle_graph) ''x.csv'' None)
       = Some [''x.csv'', ''y.csv'']"
  by code_simp

theorem walks_terminate_expand_once_witness:
  "expanded_at (anc_step (build_indexes cycle_graph) None) (init_walk [''x.csv'']) 0 ''x.csv''
   \<and> map fst (queue ((anc_step (build_indexes cycle_graph) None ^^ 2) (init_walk [''x.csv''])))
       = [''x.csv'']
   \<and> \<not> expanded_at (anc_step (build_indexes cycle_graph) None) (init_walk [''x.csv'']) 2 ''x.csv''
   \<and> map_option (map fst \<circ> res_entities)
         (get_file_ancestry (build_indexes cycle_graph) ''x.csv'' None)
       = Some [''x.csv'', ''y.csv'']"
proof -
  note th = walks_terminate_expand_once[of "build_indexes cycle_graph" None
      "init_walk [''x.csv'']" "''x.csv''" 0 "''x.csv''" 2]
  note imp = th[THEN conjunct2, THEN conjunct2, THEN conjunct2, THEN conjunct2,
      THEN conjunct2, THEN conjunct2, THEN conjunct1]
  have n: "\<not> expanded_at (anc_step (build_indexes cycle_graph) None)
             (init_walk [''x.csv'']) 2 ''x.csv''"
  proof
    assume "expanded_at (anc_step (build_indexes cycle_graph) None)
             (init_walk [''x.csv'']) 2 ''x.csv''"
    with cyc_e0 have "(0::nat) = 2" by (rule imp[rule_format, OF conjI])
    then show False by simp
  qed
  show ?thesis
    by (intro conjI) (rule cyc_e0, rule cyc_q2, rule n, rule cyc_r)
qed

section \<open>Depth limit zero\<close>

lemma chain_final: "get_file_entities (build_indexes chain_graph) ''final.csv'' = [ent_final]"
  by code_simp

lemma chain_raw: "get_file_entities (build_indexes chain_graph) ''raw.csv'' = [ent_raw]"
  by code_simp

lemma chain_final_producers:
  "dict_get_list (actions_by_result (build_indexes chain_graph)) ''final.csv'' = [''#a2'']"
  by code_simp

lemma chain_anc0_entities:
  "map_option (map fst \<circ> res_entities)
        (get_file_ancestry (build_indexes chain_graph) ''final.csv'' (Some 0))
       = Some [''final.csv'']"
  by code_simp

lemma chain_anc0_actions:
  "map_option (map fst \<circ> res_actions)
        (get_file_ancestry (build_indexes chain_graph) ''final.csv'' (Some 0))
       = Some [''#a2'']"
  by code_simp

lemma chain_desc0_actions:
  "map_option (map fst \<circ> res_actions)
        (get_file_descendants (build_indexes chain_graph) ''raw.csv'' (Some 0))
       = Some [''#a1'']"
  by code_simp

lemma chain_final_id: "eid ` set [ent_final] = {''final.csv''}"
  by (simp add: ent_final_def)

lemma chain_final_producer_set:
  "set (dict_get_list (actions_by_result (build_indexes chain_graph)) ''final.csv'') = {''#a2''}"
  unfolding chain_final_producers by simp

theorem depth_zero_roots_and_direct_actions_witness:
  "distinct (map eid chain_graph)
   \<and> (\<exists>r. get_file_ancestry (build_indexes chain_graph) ''final.csv'' (Some 0) = Some r
         \<and> fst ` set (res_entities r) = {''final.csv''}
         \<and> fst ` set (res_actions r) = {''#a2''})"
proof -
  let ?c = "build_indexes chain_graph"
  note th = depth_zero_roots_and_direct_actions[of chain_graph "''final.csv''"]
  from th[THEN conjunct1] obtain r where
    r: "get_file_ancestry ?c ''final.csv'' (Some 0) = Some r
      \<and> fst ` set (res_entities r) \<subseteq> eid ` set (get_file_entities ?c ''final.csv'')
      \<and> fst ` set (res_actions r) =
          (\<Union>x \<in> fst ` set (res_entities r). set (dict_get_list (actions_by_result ?c) x))
      \<and> (distinct (map eid chain_graph) \<longrightarrow>
           fst ` set (res_entities r) = eid ` set (get_file_entities ?c ''final.csv''))" ..
  note r1 = r[THEN conjunct1]
  note r3 = r[THEN conjunct2, THEN conjunct2, THEN conjunct1]
  note r4 = r[THEN conjunct2, THEN conjunct2, THEN conjunct2, rule_format, OF chain_distinct]
  have e: "fst ` set (res_entities r) = {''final.csv''}"
    using r4 by (simp only: chain_final chain_final_id)
  have a0: "(\<Union>x \<in> {''final.csv''}. set (dict_get_list (actions_by_result ?c) x)) =
      set (dict_get_list (actions_by_result ?c) ''final.csv'')"
    by (rule UN_singleton[THEN trans, OF refl] | simp only: UN_insert UN_empty Un_empty_right)
  have a1: "fst ` set (res_actions r) =
      (\<Union>x \<in> {''final.csv''}. set (dict_get_list (actions_by_result ?c) x))"
    using r3 unfolding e .
  have a: "fst ` set (res_actions r) = {''#a2''}"
    using a1 unfolding a0 chain_final_producer_set .
  have "get_file_ancestry ?c ''final.csv'' (Some 0) = Some r
         \<and> fst ` set (res_entities r) = {''final.csv''}
         \<and> fst ` set (res_actions r) = {''#a2''}"
    by (intro conjI) (rule r1, rule e, rule a)
  then have "\<exists>r. get_file_ancestry ?c ''final.csv'' (Some 0) = Some r
         \<and> fst ` set (res_entities r) = {''final.csv''}
         \<and> fst ` set (res_actions r) = {''#a2''}"
    by (rule exI[where x = r])
  with chain_distinct show ?thesis by (rule conjI)
qed

text \<open>
  C2 as stated fails: with \<^verbatim>\<open>max_depth = 0\<close> the ancestry of \<^verbatim>\<open>final.csv\<close> holds the
  root alone in \<^verbatim>\<open>entities\<close> but its producer in \<^verbatim>\<open>actions\<close>, and the descendants of
  \<^verbatim>\<open>raw.csv\<close> hold its consumer.
\<close>

theorem depth_zero_actions_not_empty:
  "get_file_entities (build_indexes chain_graph) ''final.csv'' = [ent_final]
   \<and> map_option (map fst \<circ> res_entities)
        (get_file_ancestry (build_indexes chain_graph) ''final.csv'' (Some 0))
       = Some [''final.csv'']
   \<and> map_option (map fst \<circ> res_actions)
        (get_file_ancestry (build_indexes chain_graph) ''final.csv'' (Some 0))
       = Some [''#a2'']
   \<and> get_file_entities (build_indexes chain_graph) ''raw.csv'' = [ent_raw]
   \<and> map_option (map fst \<circ> res_actions)
        (get_file_descendants (build_indexes chain_graph) ''raw.csv'' (Some 0))
       = Some [''#a1'']"
  by (intro conjI)
     (rule chain_final, rule chain_anc0_entities, rule chain_anc0_actions, rule chain_raw,
      rule chain_desc0_actions)

section \<open>Edges of the walks\<close>


lemma desc_result_inv:
  "\<exists>t. get_file_descendants (build_indexes g) sel md =
           Some \<lparr> res_root_files = map summarise_file (get_file_entities (build_indexes g) sel),
                  res_entities = entity_nodes t,
                  res_actions = action_nodes t,
                  res_edges = edges t,
                  res_descendant_files =
                    collect_descendant_files
                      (map eid (get_file_entities (build_indexes g) sel)) (entity_nodes t) \<rparr>
       \<and> walk_inv (build_indexes g) (actions_by_input (build_indexes g)) used_edge t"
proof -
  from descendants_walk[of "build_indexes g" md sel] obtain t where
    t: "desc_loop (build_indexes g) md
          (init_walk (map eid (get_file_entities (build_indexes g) sel))) = Some t
       \<and> get_file_descendants (build_indexes g) sel md =
           Some \<lparr> res_root_files = map summarise_file (get_file_entities (build_indexes g) sel),
                  res_entities = entity_nodes t,
                  res_actions = action_nodes t,
                  res_edges = edges t,
                  res_descendant_files =
                    collect_descendant_files
                      (map eid (get_file_entities (build_indexes g) sel)) (entity_nodes t) \<rparr>"
    by (rule exE)
  note inv = desc_loop_inv[OF input_index_resolves t[THEN conjunct1]]
  show ?thesis
    by (rule exI[where x = t]) (rule conjI, rule t[THEN conjunct2], rule inv)
qed






section \<open>Descendant files\<close>

lemma node_sha1_node_of:
  "node_sha1 (node_of e) = (if has_type e ''File'' then py_get e ''sha1'' else JNull)"
  by (simp add: node_sha1_def node_of_def summarise_file_def)

lemma collect_mem:
  "n \<in> set (collect_descendant_files roots nodes) \<longleftrightarrow>
     (\<exists>k. (k, n) \<in> set nodes \<and> k \<notin> set roots \<and> node_sha1 n \<noteq> JNull)"
  by (auto simp: collect_descendant_files_def image_iff)

text \<open>
  C6. \<^verbatim>\<open>get_file_descendants\<close> returns, and a node is in \<^verbatim>\<open>descendant_files\<close> exactly if
  it is the summary, recorded in \<^verbatim>\<open>entities\<close>, of a visited entity of type \<^verbatim>\<open>File\<close> that
  is not a root and whose \<^verbatim>\<open>sha1\<close> is present. A visited \<^verbatim>\<open>File\<close> without \<^verbatim>\<open>sha1\<close> is in
  \<^verbatim>\<open>entities\<close> but not in \<^verbatim>\<open>descendant_files\<close>.
\<close>

theorem descendant_files_are_hashed_non_root_files:
  "\<exists>r. get_file_descendants (build_indexes g) sel md = Some r
     \<and> (n \<in> set (res_descendant_files r) \<longleftrightarrow>
          (\<exists>k e. (k, n) \<in> set (res_entities r)
             \<and> map_of (by_id (build_indexes g)) k = Some e
             \<and> has_type e ''File''
             \<and> k \<notin> eid ` set (get_file_entities (build_indexes g) sel)
             \<and> py_get e ''sha1'' \<noteq> JNull
             \<and> n = FileNode (summarise_file e)))
     \<and> (k \<in> fst ` set (res_entities r)
          \<and> map_of (by_id (build_indexes g)) k = Some e
          \<and> has_type e ''File'' \<and> py_get e ''sha1'' = JNull \<longrightarrow>
            (k, FileNode (summarise_file e)) \<in> set (res_entities r)
            \<and> FileNode (summarise_file e) \<notin> set (res_descendant_files r))"
proof -
  let ?c = "build_indexes g"
  let ?roots = "map eid (get_file_entities ?c sel)"
  from desc_result_inv[of g sel md] obtain t where
    t: "get_file_descendants ?c sel md =
           Some \<lparr> res_root_files = map summarise_file (get_file_entities ?c sel),
                  res_entities = entity_nodes t,
                  res_actions = action_nodes t,
                  res_edges = edges t,
                  res_descendant_files = collect_descendant_files ?roots (entity_nodes t) \<rparr>
         \<and> walk_inv ?c (actions_by_input ?c) used_edge t"
    by (rule exE)
  note inv = t[THEN conjunct2]
  note ent = walk_invD(2)[OF inv]
  have a: "n \<in> set (collect_descendant_files ?roots (entity_nodes t)) \<longleftrightarrow>
          (\<exists>k e. (k, n) \<in> set (entity_nodes t)
             \<and> map_of (by_id ?c) k = Some e
             \<and> has_type e ''File''
             \<and> k \<notin> eid ` set (get_file_entities ?c sel)
             \<and> py_get e ''sha1'' \<noteq> JNull
             \<and> n = FileNode (summarise_file e))"
  proof
    assume "n \<in> set (collect_descendant_files ?roots (entity_nodes t))"
    then obtain k where k: "(k, n) \<in> set (entity_nodes t)" "k \<notin> set ?roots"
        "node_sha1 n \<noteq> JNull"
      unfolding collect_mem by (elim exE conjE)
    from ent[OF k(1)] obtain e where e: "map_of (by_id ?c) k = Some e" "n = node_of e"
      by (elim exE conjE)
    from k(3) have s: "(if has_type e ''File'' then py_get e ''sha1'' else JNull) \<noteq> JNull"
      unfolding e(2) node_sha1_node_of .
    then have f: "has_type e ''File''" by (cases "has_type e ''File''") simp_all
    with s have h: "py_get e ''sha1'' \<noteq> JNull" by simp
    have nn: "n = FileNode (summarise_file e)" using e(2) f by (simp add: node_of_def)
    have kr: "k \<notin> eid ` set (get_file_entities ?c sel)" using k(2) by simp
    show "\<exists>k e. (k, n) \<in> set (entity_nodes t)
             \<and> map_of (by_id ?c) k = Some e
             \<and> has_type e ''File''
             \<and> k \<notin> eid ` set (get_file_entities ?c sel)
             \<and> py_get e ''sha1'' \<noteq> JNull
             \<and> n = FileNode (summarise_file e)"
      by (rule exI[where x = k], rule exI[where x = e])
         (intro conjI, rule k(1), rule e(1), rule f, rule kr, rule h, rule nn)
  next
    assume "\<exists>k e. (k, n) \<in> set (entity_nodes t)
             \<and> map_of (by_id ?c) k = Some e
             \<and> has_type e ''File''
             \<and> k \<notin> eid ` set (get_file_entities ?c sel)
             \<and> py_get e ''sha1'' \<noteq> JNull
             \<and> n = FileNode (summarise_file e)"
    then obtain k e where ke: "(k, n) \<in> set (entity_nodes t)"
        "k \<notin> eid ` set (get_file_entities ?c sel)" "py_get e ''sha1'' \<noteq> JNull"
        "n = FileNode (summarise_file e)"
      by (elim exE conjE)
    have "node_sha1 n \<noteq> JNull"
      using ke(3) unfolding ke(4) by (simp add: node_sha1_def summarise_file_def)
    moreover have "k \<notin> set ?roots" using ke(2) by simp
    ultimately show "n \<in> set (collect_descendant_files ?roots (entity_nodes t))"
      unfolding collect_mem using ke(1) by (intro exI[where x = k] conjI)
  qed
  have b: "k \<in> fst ` set (entity_nodes t)
          \<and> map_of (by_id ?c) k = Some e
          \<and> has_type e ''File'' \<and> py_get e ''sha1'' = JNull \<longrightarrow>
            (k, FileNode (summarise_file e)) \<in> set (entity_nodes t)
            \<and> FileNode (summarise_file e)
                \<notin> set (collect_descendant_files ?roots (entity_nodes t))"
  proof
    assume h: "k \<in> fst ` set (entity_nodes t)
          \<and> map_of (by_id ?c) k = Some e
          \<and> has_type e ''File'' \<and> py_get e ''sha1'' = JNull"
    note h1 = h[THEN conjunct1]
    note h2 = h[THEN conjunct2, THEN conjunct1]
    note h3 = h[THEN conjunct2, THEN conjunct2, THEN conjunct1]
    note h4 = h[THEN conjunct2, THEN conjunct2, THEN conjunct2]
    from h1 obtain n' where n': "(k, n') \<in> set (entity_nodes t)" by force
    from ent[OF n'] obtain e' where e': "map_of (by_id ?c) k = Some e'" "n' = node_of e'"
      by (elim exE conjE)
    from e'(1) h2 have "e' = e" by simp
    then have "n' = FileNode (summarise_file e)" using e'(2) h3 by (simp add: node_of_def)
    with n' have 1: "(k, FileNode (summarise_file e)) \<in> set (entity_nodes t)" by simp
    have "node_sha1 (FileNode (summarise_file e)) = JNull"
      using h4 by (simp add: node_sha1_def summarise_file_def)
    then have 2: "FileNode (summarise_file e)
                \<notin> set (collect_descendant_files ?roots (entity_nodes t))"
      unfolding collect_mem by simp
    from 1 2 show "(k, FileNode (summarise_file e)) \<in> set (entity_nodes t)
            \<and> FileNode (summarise_file e)
                \<notin> set (collect_descendant_files ?roots (entity_nodes t))"
      by (rule conjI)
  qed
  show ?thesis
    apply (rule exI[where x = "\<lparr> res_root_files = map summarise_file (get_file_entities ?c sel),
                  res_entities = entity_nodes t,
                  res_actions = action_nodes t,
                  res_edges = edges t,
                  res_descendant_files = collect_descendant_files ?roots (entity_nodes t) \<rparr>"])
    apply (intro conjI)
      apply (rule t[THEN conjunct1])
     apply (simp only: subgraph.simps descendants.simps)
     apply (rule a)
    apply (simp only: subgraph.simps descendants.simps)
    apply (rule b)
    done
qed

text \<open>
  On \<^term>\<open>chain_graph\<close>, from \<^verbatim>\<open>raw.csv\<close>: \<^verbatim>\<open>plot.png\<close> has no \<^verbatim>\<open>sha1\<close>; it is among the
  entities and not among the descendant files, which are \<^verbatim>\<open>processed.csv\<close> and
  \<^verbatim>\<open>final.csv\<close>.
\<close>

lemma chain_desc_keys:
  "map_option (map fst \<circ> res_entities)
     (get_file_descendants (build_indexes chain_graph) ''raw.csv'' None) =
   Some [''raw.csv'', ''processed.csv'', ''final.csv'', ''plot.png'']"
  by code_simp

lemma chain_desc_files:
  "map_option res_descendant_files
     (get_file_descendants (build_indexes chain_graph) ''raw.csv'' None) =
   Some [FileNode \<lparr> fs_id = ''processed.csv'', fs_name = JStr ''processed.csv'',
                    fs_sha1 = JStr ''bb'', fs_encodingFormat = JNull,
                    fs_exampleOfWork = JNull \<rparr>,
         FileNode \<lparr> fs_id = ''final.csv'', fs_name = JStr ''final.csv'',
                    fs_sha1 = JStr ''cc'', fs_encodingFormat = JNull,
                    fs_exampleOfWork = JNull \<rparr>]"
  by code_simp

lemma chain_plot: "map_of (by_id (build_indexes chain_graph)) ''plot.png'' = Some ent_plot"
  by code_simp

lemma plot_file: "has_type ent_plot ''File''"
  by code_simp

lemma plot_no_hash: "py_get ent_plot ''sha1'' = JNull"
  by code_simp

theorem descendant_files_are_hashed_non_root_files_witness:
  "(\<exists>r. get_file_descendants (build_indexes chain_graph) ''raw.csv'' None = Some r
       \<and> (''plot.png'', FileNode (summarise_file ent_plot)) \<in> set (res_entities r)
       \<and> FileNode (summarise_file ent_plot) \<notin> set (res_descendant_files r))
   \<and> map_option res_descendant_files
        (get_file_descendants (build_indexes chain_graph) ''raw.csv'' None) =
      Some [FileNode \<lparr> fs_id = ''processed.csv'', fs_name = JStr ''processed.csv'',
                       fs_sha1 = JStr ''bb'', fs_encodingFormat = JNull,
                       fs_exampleOfWork = JNull \<rparr>,
            FileNode \<lparr> fs_id = ''final.csv'', fs_name = JStr ''final.csv'',
                       fs_sha1 = JStr ''cc'', fs_encodingFormat = JNull,
                       fs_exampleOfWork = JNull \<rparr>]"
proof -
  let ?c = "build_indexes chain_graph"
  note th = descendant_files_are_hashed_non_root_files[of chain_graph "''raw.csv''" None
      "FileNode (summarise_file ent_plot)" "''plot.png''" ent_plot]
  from th obtain r where
    r: "get_file_descendants ?c ''raw.csv'' None = Some r
     \<and> (FileNode (summarise_file ent_plot) \<in> set (res_descendant_files r) \<longleftrightarrow>
          (\<exists>k e. (k, FileNode (summarise_file ent_plot)) \<in> set (res_entities r)
             \<and> map_of (by_id ?c) k = Some e
             \<and> has_type e ''File''
             \<and> k \<notin> eid ` set (get_file_entities ?c ''raw.csv'')
             \<and> py_get e ''sha1'' \<noteq> JNull
             \<and> FileNode (summarise_file ent_plot) = FileNode (summarise_file e)))
     \<and> (''plot.png'' \<in> fst ` set (res_entities r)
          \<and> map_of (by_id ?c) ''plot.png'' = Some ent_plot
          \<and> has_type ent_plot ''File'' \<and> py_get ent_plot ''sha1'' = JNull \<longrightarrow>
            (''plot.png'', FileNode (summarise_file ent_plot)) \<in> set (res_entities r)
            \<and> FileNode (summarise_file ent_plot) \<notin> set (res_descendant_files r))"
    by (rule exE)
  note r1 = r[THEN conjunct1]
  note r3 = r[THEN conjunct2, THEN conjunct2]
  have k: "map fst (res_entities r) = [''raw.csv'', ''processed.csv'', ''final.csv'', ''plot.png'']"
    using chain_desc_keys unfolding r1 by simp
  have "fst ` set (res_entities r) = set (map fst (res_entities r))" by simp
  then have m: "''plot.png'' \<in> fst ` set (res_entities r)"
    unfolding k by simp
  have h: "''plot.png'' \<in> fst ` set (res_entities r)
          \<and> map_of (by_id ?c) ''plot.png'' = Some ent_plot
          \<and> has_type ent_plot ''File'' \<and> py_get ent_plot ''sha1'' = JNull"
    by (intro conjI) (rule m, rule chain_plot, rule plot_file, rule plot_no_hash)
  note c = r3[rule_format, OF h]
  have "\<exists>r. get_file_descendants ?c ''raw.csv'' None = Some r
       \<and> (''plot.png'', FileNode (summarise_file ent_plot)) \<in> set (res_entities r)
       \<and> FileNode (summarise_file ent_plot) \<notin> set (res_descendant_files r)"
    by (rule exI[where x = r]) (intro conjI, rule r1, rule c[THEN conjunct1], rule c[THEN conjunct2])
  then show ?thesis
    by (rule conjI) (rule chain_desc_files)
qed

section \<open>Dangling references\<close>


















end
